theory Spec2Isabelle
  imports Main "HOL-Library.AList" "HOL-Library.Char_ord" "HOL-Library.List_Lexorder"
    "HOL-Library.Word" "HOL-Library.Multiset"
begin

section \<open>Data model of the haproxy configurator\<close>

text \<open>
  Go strings are byte strings compared bytewise, which is the lexicographic order of
  \<open>char list\<close> over the byte order of \<open>char\<close>. A Go map is an association list
  whose keys are pairwise different; the order of its entries stands for the order in which
  a \<open>range\<close> statement happens to yield them. A map entry that holds a pointer is modelled
  by the value pointed to, and a write through the pointer by an update of the entry.
\<close>

type_synonym ('k, 'v) gomap = "('k \<times> 'v) list"

text \<open>
  Modelled from the spec: the declarations of the types \<open>HaproxyBackendServer\<close>,
  \<open>HaproxyBackend\<close>, \<open>haproxyListener\<close> and \<open>haproxyConfig\<close> are not among the sources.
  The fields are the ones that \<open>AddListener\<close> and \<open>Render\<close> read and write, with the types
  of section 3 of the specification; \<open>Backends\<close> is the slice of servers over which
  \<open>Render\<close> ranges and which it hands to \<open>sort.Slice\<close> (line 186).
\<close>

record HaproxyBackendServer =
  ServerName :: string
  ServerIP :: string
  ServerPort :: "16 word"

text \<open>
  A Go slice is a window into a backing array: \<open>AddListener\<close> stores the backend of a
  request with the slice header that the caller filled in (line 99), so the servers of a
  stored backend live in an array of the caller, and two stored backends may look at the
  same array, at the same or at overlapping windows. The model keeps the arrays in a heap,
  addressed by number; a slice header names an array, the offset of its first element
  and its length. An address that the heap does not have stands for an array without
  elements, and a window is cut off where its array ends.

  The certificates of a listener need no heap: \<open>AddListener\<close> makes that slice itself
  (line 79) and hands it to nobody.
\<close>

record slice =
  slicePtr :: nat
  sliceOff :: nat
  sliceLen :: nat

type_synonym heap = "HaproxyBackendServer list list"

definition array :: "heap \<Rightarrow> nat \<Rightarrow> HaproxyBackendServer list" where
  "array hp p = (if p < length hp then hp ! p else [])"

definition readSlice :: "heap \<Rightarrow> slice \<Rightarrow> HaproxyBackendServer list" where
  "readSlice hp s = take (sliceLen s) (drop (sliceOff s) (array hp (slicePtr s)))"

record HaproxyBackend =
  BackendName :: string
  BalanceMethod :: string
  UseSSL :: bool
  VerifySSL :: bool
  Backends :: slice

record haproxyListener =
  name :: string
  mode :: string
  sslCertificates :: "string list"
  hostnameBackends :: "(string, HaproxyBackend) gomap"
  useSSL :: bool

record haproxyConfig =
  listenIPs :: "(string, (16 word, haproxyListener) gomap) gomap"

record HaproxyConfigurator =
  desiredConfig :: haproxyConfig

record HaproxyListenerConfig =
  Name :: string
  Backend :: HaproxyBackend
  Hostname :: string
  ListenIP :: string
  ListenPort :: "16 word"
  Mode :: string
  SslCertificate :: string
  validationErrors :: "string list"

text \<open>
  A call either returns or panics. In both cases it may have written lines to the console
  (\<open>color.Red\<close>); a call that returns leaves a store behind.
\<close>

datatype failure = Panic string | NilPointerDereference

datatype outcome =
  Returned "string list" HaproxyConfigurator
| Panicked "string list" failure

definition Initialize :: "HaproxyConfigurator \<Rightarrow> HaproxyConfigurator" where
  "Initialize h = h\<lparr>desiredConfig := (desiredConfig h)\<lparr>listenIPs := []\<rparr>\<rparr>"

section \<open>Decimal numbers\<close>

definition digitChar :: "nat \<Rightarrow> char" where
  "digitChar d = ''0123456789'' ! d"

fun digits :: "nat \<Rightarrow> string" where
  "digits n =
     (if n < 10 then [digitChar n]
      else digits (n div 10) @ [digitChar (n mod 10)])"

declare digits.simps [simp del]

definition Itoa :: "int \<Rightarrow> string" where
  "Itoa i = (if i < 0 then CHR ''-'' # digits (nat (- i)) else digits (nat i))"

section \<open>Validation and AddListener\<close>

definition addValidationError :: "HaproxyListenerConfig \<Rightarrow> string \<Rightarrow> HaproxyListenerConfig" where
  "addValidationError hlc message = hlc\<lparr>validationErrors := validationErrors hlc @ [message]\<rparr>"

definition invalidModeMessage :: "string \<Rightarrow> string" where
  "invalidModeMessage m =
     ''Invalid mode ('' @ m @ '') specified - valid options ''
       @ [CHR 0x27] @ ''http'' @ [CHR 0x27] @ '', '' @ [CHR 0x27] @ ''tcp'' @ [CHR 0x27]"

definition modeMismatchMessage :: string where
  "modeMismatchMessage = ''Mode does not match on service''"

definition sslMismatchMessage :: string where
  "sslMismatchMessage =
     ''SSL Certificate provided on a service that isn'' @ [CHR 0x27] @ ''t using SSL''"

definition lookupListener :: "HaproxyConfigurator \<Rightarrow> string \<Rightarrow> 16 word \<Rightarrow> haproxyListener option" where
  "lookupListener h ip port =
     (case map_of (listenIPs (desiredConfig h)) ip of
        None \<Rightarrow> None
      | Some inner \<Rightarrow> map_of inner port)"

text \<open>
  \<open>validate\<close> has a pointer receiver: it returns the verdict together with the request,
  whose \<open>validationErrors\<close> it has extended. \<open>checkMode\<close> is its first check
  (lines 40 to 44), the rest compares the request with the listener already stored.
\<close>

definition checkMode :: "HaproxyListenerConfig \<Rightarrow> bool \<times> HaproxyListenerConfig" where
  "checkMode hlc =
     (if Mode hlc \<noteq> ''http'' \<and> Mode hlc \<noteq> ''tcp''
      then (False, addValidationError hlc (invalidModeMessage (Mode hlc)))
      else (True, hlc))"

definition validate :: "HaproxyListenerConfig \<Rightarrow> HaproxyConfigurator \<Rightarrow> bool \<times> HaproxyListenerConfig" where
  "validate hlc0 h =
     (let (validated, hlc) = checkMode hlc0
      in case map_of (listenIPs (desiredConfig h)) (ListenIP hlc) of
           None \<Rightarrow> (validated, hlc)
         | Some inner \<Rightarrow>
            (case map_of inner (ListenPort hlc) of
               None \<Rightarrow> (validated, hlc)
             | Some listener \<Rightarrow>
                (let (validated, hlc) =
                       (if mode listener \<noteq> Mode hlc
                        then (False, addValidationError hlc modeMismatchMessage)
                        else (validated, hlc));
                     (validated, hlc) =
                       (if useSSL listener \<noteq> (SslCertificate hlc \<noteq> '''')
                        then (False, addValidationError hlc sslMismatchMessage)
                        else (validated, hlc))
                 in (validated, hlc))))"

definition newListener :: "HaproxyListenerConfig \<Rightarrow> haproxyListener" where
  "newListener hlc =
     \<lparr>name = Name hlc, mode = Mode hlc, sslCertificates = [], hostnameBackends = [],
      useSSL = (SslCertificate hlc \<noteq> '''')\<rparr>"

text \<open>Lines 92 to 99 of \<open>AddListener\<close>: the certificate is appended, the backend is stored.\<close>

definition mergeRequest :: "HaproxyListenerConfig \<Rightarrow> haproxyListener \<Rightarrow> haproxyListener" where
  "mergeRequest hlc listener0 =
     (let listener =
            (if SslCertificate hlc \<noteq> ''''
             then listener0\<lparr>sslCertificates := sslCertificates listener0 @ [SslCertificate hlc]\<rparr>
             else listener0);
          hostname = (if Mode hlc = ''tcp'' then ''_'' else Hostname hlc)
      in listener\<lparr>hostnameBackends :=
           AList.update hostname (Backend hlc) (hostnameBackends listener)\<rparr>)"

definition storeListener ::
  "HaproxyConfigurator \<Rightarrow> string \<Rightarrow> 16 word \<Rightarrow> haproxyListener \<Rightarrow> HaproxyConfigurator" where
  "storeListener h ip port listener =
     (let ips = listenIPs (desiredConfig h);
          inner = (case map_of ips ip of None \<Rightarrow> [] | Some m \<Rightarrow> m)
      in h\<lparr>desiredConfig := (desiredConfig h)
            \<lparr>listenIPs := AList.update ip (AList.update port listener inner) ips\<rparr>\<rparr>)"

definition duplicateTcpMessage :: "16 word \<Rightarrow> string" where
  "duplicateTcpMessage port =
     ''A listener for another TCP service is already configured on the port (''
       @ Itoa (uint port) @ '')''"

definition duplicateTcpPanic :: string where
  "duplicateTcpPanic = ''This could cause unpredictability in the service router''"

definition AddListener :: "HaproxyConfigurator \<Rightarrow> HaproxyListenerConfig \<Rightarrow> outcome" where
  "AddListener h hlc0 =
     (case validate hlc0 h of
        (validated, hlc) \<Rightarrow>
          if validated then
            (case lookupListener h (ListenIP hlc) (ListenPort hlc) of
               None \<Rightarrow>
                 Returned [] (storeListener h (ListenIP hlc) (ListenPort hlc)
                   (mergeRequest hlc (newListener hlc)))
             | Some listener \<Rightarrow>
                 if Mode hlc = ''tcp''
                 then Panicked [duplicateTcpMessage (ListenPort hlc)]
                        (Panic duplicateTcpPanic)
                 else Returned [] (storeListener h (ListenIP hlc) (ListenPort hlc)
                        (mergeRequest hlc listener)))
          else Returned (Name hlc # map (\<lambda>message. ''  '' @ message) (validationErrors hlc)) h)"

text \<open>A sequence of calls, issued one after the other; a panic ends it.\<close>

fun AddListeners :: "HaproxyConfigurator \<Rightarrow> HaproxyListenerConfig list \<Rightarrow> failure + HaproxyConfigurator" where
  "AddListeners h [] = Inr h"
| "AddListeners h (hlc # rest) =
     (case AddListener h hlc of
        Panicked out e \<Rightarrow> Inl e
      | Returned out h' \<Rightarrow> AddListeners h' rest)"

section \<open>Render\<close>

definition NL :: string where
  "NL = [CHR 0x0A]"

text \<open>
  The keys of a map, collected by a \<open>range\<close> loop and sorted: the listen addresses are
  sorted after every \<open>append\<close>, the ports and the hostnames once after the loop.
  Strings and ports that compare equal are the same value, so these sorts have one
  possible result.
\<close>

definition collectIPs :: "(string, 'v) gomap \<Rightarrow> string list" where
  "collectIPs m = foldl (\<lambda>ips listenIP. sort (ips @ [listenIP])) [] (map fst m)"

definition sortListenerMap :: "(16 word, 'v) gomap \<Rightarrow> 16 word list" where
  "sortListenerMap inner = sort (foldl (\<lambda>ports port. ports @ [port]) [] (map fst inner))"

definition sortBackendMap :: "(string, 'v) gomap \<Rightarrow> string list" where
  "sortBackendMap inner = sort (foldl (\<lambda>backends name. backends @ [name]) [] (map fst inner))"

text \<open>
  \<open>for _, k := range keys { v := m[k]; ... }\<close> where \<open>m[k]\<close> is a pointer (or a map):
  the body reads the entry, appends to \<open>config\<close> and may write through the pointer.
  What the body reads and writes besides the entry is the state that the loop threads
  through: the text \<open>config\<close> in the first pass of \<open>Render\<close>, the text and the heap
  in the second. Reading a key that the map does not have yields a nil pointer, and the
  body's first field access panics. \<open>Render\<close> takes the keys from the map itself, so no
  lookup misses (lemma \<open>rangeKeys_total\<close>); the branch is there for the model to be total.
\<close>

fun rangeKeys ::
  "('k \<Rightarrow> 'v \<Rightarrow> 's \<Rightarrow> failure + 's \<times> 'v) \<Rightarrow> 'k list \<Rightarrow> ('k, 'v) gomap \<Rightarrow> 's
     \<Rightarrow> failure + 's \<times> ('k, 'v) gomap" where
  "rangeKeys body [] m config = Inr (config, m)"
| "rangeKeys body (k # ks) m config =
     (case map_of m k of
        None \<Rightarrow> Inl NilPointerDereference
      | Some v \<Rightarrow>
         (case body k v config of
            Inl e \<Rightarrow> Inl e
          | Inr (config', v') \<Rightarrow> rangeKeys body ks (AList.update k v' m) config'))"

text \<open>The certificate loop, with its \<open>previous\<close> variable.\<close>

fun certLoop :: "string \<Rightarrow> string \<Rightarrow> string list \<Rightarrow> string" where
  "certLoop config previous [] = config"
| "certLoop config previous (certificate # rest) =
     (if previous \<noteq> certificate
      then certLoop (config @ '' crt '' @ certificate) certificate rest
      else certLoop config previous rest)"

text \<open>The loop over the hostnames of a http listener; it reads the backends only.\<close>

fun hostLoop ::
  "16 word \<Rightarrow> (string, HaproxyBackend) gomap \<Rightarrow> string list \<Rightarrow> string \<Rightarrow> failure + string" where
  "hostLoop port hb [] config = Inr config"
| "hostLoop port hb (hostname # rest) config =
     (case map_of hb hostname of
        None \<Rightarrow> Inl NilPointerDereference
      | Some backend \<Rightarrow>
          hostLoop port hb rest
            (config
              @ ''    # Set up backend selection for '' @ hostname @ NL
              @ ''    use_backend '' @ BackendName backend @ '' if { hdr(host) -i '' @ hostname
                  @ '' }'' @ NL
              @ ''    use_backend '' @ BackendName backend @ '' if { hdr(host) -i '' @ hostname
                  @ '':'' @ Itoa (uint port) @ '' }'' @ NL))"

text \<open>
  The body of the first pass, for one listener. \<open>sort.Strings\<close> sorts the listener's
  certificate slice in place, so the listener is returned as well. Its result is the
  one sorted arrangement of the strings, whatever the algorithm.
\<close>

definition frontendStanza ::
  "string \<Rightarrow> 16 word \<Rightarrow> haproxyListener \<Rightarrow> string \<Rightarrow> failure + string \<times> haproxyListener" where
  "frontendStanza listenIP port listener0 config0 =
     (let config = config0 @ ''frontend '' @ name listener0 @ NL;
          config = config @ ''    mode '' @ mode listener0 @ NL;
          config = config @ ''    bind '' @ listenIP @ '':'' @ Itoa (uint port);
          (config, listener) =
            (if useSSL listener0 then
               (let listener = listener0\<lparr>sslCertificates := sort (sslCertificates listener0)\<rparr>;
                    config = config @ '' ssl'';
                    listener = listener\<lparr>sslCertificates := sort (sslCertificates listener)\<rparr>;
                    config = certLoop config '''' (sslCertificates listener);
                    config = config @ NL;
                    config = (if mode listener = ''http''
                              then config @ ''    reqadd x-forwarded-proto:'' @ [CHR 0x5C] @ '' https''
                              else config)
                in (config, listener))
             else (config, listener0));
          config = config @ NL;
          config = config @ NL
      in if mode listener = ''http'' then
           (case hostLoop port (hostnameBackends listener)
                   (sortBackendMap (hostnameBackends listener)) config of
              Inl e \<Rightarrow> Inl e
            | Inr config \<Rightarrow> Inr (config @ NL, listener))
         else if mode listener = ''tcp'' then
           (case map_of (hostnameBackends listener) ''_'' of
              None \<Rightarrow> Inl NilPointerDereference
            | Some backend \<Rightarrow>
                Inr (config @ ''    # Set up default_backend'' @ NL
                       @ ''    default_backend '' @ BackendName backend @ NL @ NL, listener))
         else Inr (config @ NL, listener))"

text \<open>The loop over the servers of a backend.\<close>

fun serverLoop :: "HaproxyBackend \<Rightarrow> HaproxyBackendServer list \<Rightarrow> string \<Rightarrow> string" where
  "serverLoop backend [] config = config"
| "serverLoop backend (backendServer # rest) config0 =
     (let config = config0 @ ''    server '' @ ServerName backendServer @ '' ''
                     @ ServerIP backendServer @ '':'' @ Itoa (uint (ServerPort backendServer));
          config = config @ '' check'';
          config = (if UseSSL backend then
                      (let config = config @ '' ssl''
                       in if \<not> VerifySSL backend then config @ '' verify none'' else config)
                    else config);
          config = config @ NL
      in serverLoop backend rest config)"

text \<open>
  \<open>sort.Slice\<close> belongs to the Go library, not to this program, and Go does not say
  which of the orders that its \<open>less\<close> function allows the call leaves behind
  (the sort is not stable). \<open>Render\<close> therefore takes the function \<open>srt\<close> that the call
  computes on the elements of a slice as a parameter. The call sorts in place: it writes
  the result over the window of the slice in its backing array, so every other slice
  that looks at these cells sees them change.
\<close>

definition sortSlice ::
  "(HaproxyBackendServer list \<Rightarrow> HaproxyBackendServer list) \<Rightarrow> heap \<Rightarrow> slice \<Rightarrow> heap" where
  "sortSlice srt hp s =
     hp[slicePtr s :=
          take (sliceOff s) (array hp (slicePtr s))
            @ srt (readSlice hp s)
            @ drop (sliceOff s + sliceLen s) (array hp (slicePtr s))]"

text \<open>
  The body of the second pass, for one backend of a listener in the given mode: it sorts
  the servers of the backend in place (line 186) and prints them as the slice then shows
  them. The backend itself, and its slice header, stay as they are.
\<close>

definition backendStanza ::
  "(HaproxyBackendServer list \<Rightarrow> HaproxyBackendServer list) \<Rightarrow> string \<Rightarrow> HaproxyBackend
     \<Rightarrow> string \<times> heap \<Rightarrow> (string \<times> heap) \<times> HaproxyBackend" where
  "backendStanza srt listenerMode backend st =
     (case st of (config0, hp0) \<Rightarrow>
        (let config = config0 @ ''backend '' @ BackendName backend @ NL;
             config = config @ ''    mode '' @ listenerMode @ NL;
             config = config @ ''    balance '' @ BalanceMethod backend @ NL;
             config = config @ NL;
             config = config @ ''    # Backend Servers'' @ NL;
             hp = sortSlice srt hp0 (Backends backend);
             config = serverLoop backend (readSlice hp (Backends backend)) config;
             config = config @ NL
         in ((config, hp), backend)))"

definition backendStanzas ::
  "(HaproxyBackendServer list \<Rightarrow> HaproxyBackendServer list) \<Rightarrow> haproxyListener
     \<Rightarrow> string \<times> heap \<Rightarrow> failure + (string \<times> heap) \<times> haproxyListener" where
  "backendStanzas srt listener st =
     (case rangeKeys (\<lambda>name backend st. Inr (backendStanza srt (mode listener) backend st))
             (sortBackendMap (hostnameBackends listener)) (hostnameBackends listener) st of
        Inl e \<Rightarrow> Inl e
      | Inr (st', hb) \<Rightarrow> Inr (st', listener\<lparr>hostnameBackends := hb\<rparr>))"

definition buildFrontEnds ::
  "string list \<Rightarrow> (string, (16 word, haproxyListener) gomap) gomap \<Rightarrow> string
     \<Rightarrow> failure + string \<times> (string, (16 word, haproxyListener) gomap) gomap" where
  "buildFrontEnds ips m config =
     rangeKeys (\<lambda>listenIP innerMap.
         rangeKeys (frontendStanza listenIP) (sortListenerMap innerMap) innerMap) ips m config"

definition buildBackEnds ::
  "(HaproxyBackendServer list \<Rightarrow> HaproxyBackendServer list) \<Rightarrow> string list
     \<Rightarrow> (string, (16 word, haproxyListener) gomap) gomap \<Rightarrow> string \<times> heap
     \<Rightarrow> failure + (string \<times> heap) \<times> (string, (16 word, haproxyListener) gomap) gomap" where
  "buildBackEnds srt ips m st =
     rangeKeys (\<lambda>listenIP innerMap.
         rangeKeys (\<lambda>port. backendStanzas srt) (sortListenerMap innerMap) innerMap) ips m st"

text \<open>
  \<open>Render\<close> runs on a store and on the heap that holds the servers. It returns the text
  and, since it sorts slices in place, the store and the heap that it leaves behind;
  a nil pointer dereference is the only way it can fail.
\<close>

definition Render ::
  "(HaproxyBackendServer list \<Rightarrow> HaproxyBackendServer list) \<Rightarrow> heap \<Rightarrow> HaproxyConfigurator
     \<Rightarrow> failure + string \<times> HaproxyConfigurator \<times> heap" where
  "Render srt hp h =
     (let config = '''';
          ips = collectIPs (listenIPs (desiredConfig h))
      in case buildFrontEnds ips (listenIPs (desiredConfig h)) config of
           Inl e \<Rightarrow> Inl e
         | Inr (config1, m1) \<Rightarrow>
            (case buildBackEnds srt ips m1 (config1, hp) of
               Inl e \<Rightarrow> Inl e
             | Inr ((config2, hp2), m2) \<Rightarrow>
                 Inr (config2, h\<lparr>desiredConfig := (desiredConfig h)\<lparr>listenIPs := m2\<rparr>\<rparr>, hp2)))"
section \<open>Properties of stores\<close>

text \<open>A Go map holds every key once, on each of the three levels of the store.\<close>

definition wf_store :: "HaproxyConfigurator \<Rightarrow> bool" where
  "wf_store h =
     (distinct (map fst (listenIPs (desiredConfig h))) \<and>
      list_all (\<lambda>(ip, inner). distinct (map fst inner) \<and>
          list_all (\<lambda>(port, l). distinct (map fst (hostnameBackends l))) inner)
        (listenIPs (desiredConfig h)))"

text \<open>Every listener in mode \<open>tcp\<close> has a backend under the hostname \<open>_\<close>.\<close>

definition tcpHasBackend :: "haproxyListener \<Rightarrow> bool" where
  "tcpHasBackend l = (mode l = ''tcp'' \<longrightarrow> map_of (hostnameBackends l) ''_'' \<noteq> None)"

definition tcpListenersHaveBackend :: "HaproxyConfigurator \<Rightarrow> bool" where
  "tcpListenersHaveBackend h =
     list_all (\<lambda>(ip, inner). list_all (\<lambda>(port, l). tcpHasBackend l) inner)
       (listenIPs (desiredConfig h))"

text \<open>
  The store with the certificates of every listener that uses SSL in sorted order. The
  servers are not in the store but in the heap.
\<close>

definition sortCertificates :: "haproxyListener \<Rightarrow> haproxyListener" where
  "sortCertificates l = (if useSSL l then l\<lparr>sslCertificates := sort (sslCertificates l)\<rparr> else l)"

definition sortedStore :: "HaproxyConfigurator \<Rightarrow> HaproxyConfigurator" where
  "sortedStore h =
     h\<lparr>desiredConfig := (desiredConfig h)\<lparr>listenIPs :=
         map (\<lambda>(ip, inner). (ip, map (\<lambda>(port, l). (port, sortCertificates l)) inner))
           (listenIPs (desiredConfig h))\<rparr>\<rparr>"

text \<open>The text that \<open>Render\<close> returns, without the store and the heap.\<close>

definition RenderText ::
  "(HaproxyBackendServer list \<Rightarrow> HaproxyBackendServer list) \<Rightarrow> heap \<Rightarrow> HaproxyConfigurator
     \<Rightarrow> failure + string" where
  "RenderText srt hp h = (case Render srt hp h of Inl e \<Rightarrow> Inl e | Inr (config, r) \<Rightarrow> Inr config)"

text \<open>
  What the theorems assume of \<open>sort.Slice\<close> with the \<open>less\<close> function of line 186: the
  result holds the elements of the slice, it is in ascending order of the server names,
  and a slice that is in this order already is left as it is. Nothing is assumed about
  the order in which servers of the same name end up. The sort of the Go library
  (a pattern-defeating quicksort since Go 1.19) keeps the three: it runs an insertion
  sort on up to twelve elements, and on more it first looks for a pair that is out of
  order and returns when there is none.
\<close>

definition sortContract :: "(HaproxyBackendServer list \<Rightarrow> HaproxyBackendServer list) \<Rightarrow> bool" where
  "sortContract srt =
     (\<forall>servers. mset (srt servers) = mset servers \<and>
        sorted (map ServerName (srt servers)) \<and>
        (sorted (map ServerName servers) \<longrightarrow> srt servers = servers))"

text \<open>
  Two slices that do not get into each other's way: they are the same window, or one of
  them is empty, or they lie in different arrays or in different parts of one array.
  In a store with \<open>ownSlices\<close> this holds of the server slices of any two backends.
\<close>

definition sameOrApart :: "slice \<Rightarrow> slice \<Rightarrow> bool" where
  "sameOrApart s1 s2 =
     (s1 = s2 \<or> sliceLen s1 = 0 \<or> sliceLen s2 = 0 \<or> slicePtr s1 \<noteq> slicePtr s2 \<or>
      sliceOff s1 + sliceLen s1 \<le> sliceOff s2 \<or> sliceOff s2 + sliceLen s2 \<le> sliceOff s1)"

definition storedBackends :: "HaproxyConfigurator \<Rightarrow> HaproxyBackend list" where
  "storedBackends h =
     concat (map (\<lambda>(ip, inner). concat (map (\<lambda>(port, l). map snd (hostnameBackends l)) inner))
       (listenIPs (desiredConfig h)))"

definition ownSlices :: "HaproxyConfigurator \<Rightarrow> bool" where
  "ownSlices h =
     (\<forall>b1 \<in> set (storedBackends h). \<forall>b2 \<in> set (storedBackends h).
        sameOrApart (Backends b1) (Backends b2))"

section \<open>The text of a store\<close>

text \<open>
  The text that section 4.2 of the specification describes, written down without loops:
  the entries of every map are taken in ascending order of their keys, all frontend
  stanzas come first, all backend stanzas second.
\<close>

definition byKey :: "('k::linorder, 'v) gomap \<Rightarrow> ('k \<times> 'v) list" where
  "byKey m = sort_key fst m"

definition crtDirective :: "string \<Rightarrow> string" where
  "crtDirective certificate = '' crt '' @ certificate"

text \<open>
  The certificates for which the certificate loop appends a \<open>crt\<close> directive, in the
  order in which it appends them.
\<close>

fun emittedCerts :: "string \<Rightarrow> string list \<Rightarrow> string list" where
  "emittedCerts previous [] = []"
| "emittedCerts previous (certificate # rest) =
     (if previous \<noteq> certificate then certificate # emittedCerts certificate rest
      else emittedCerts previous rest)"

text \<open>
  The head of a frontend stanza: the name, the mode and the \<open>bind\<close> line, which for a
  listener with SSL carries one \<open>crt\<close> directive for every non-empty certificate name of
  the listener, each name once, in ascending order.
\<close>

definition frontendHead :: "string \<Rightarrow> 16 word \<Rightarrow> haproxyListener \<Rightarrow> string" where
  "frontendHead listenIP port l =
     ''frontend '' @ name l @ NL @ ''    mode '' @ mode l @ NL
       @ ''    bind '' @ listenIP @ '':'' @ Itoa (uint port)
       @ (if useSSL l then
            '' ssl''
              @ concat (map crtDirective
                  (sort (remdups (filter (\<lambda>certificate. certificate \<noteq> '''') (sslCertificates l)))))
              @ NL
              @ (if mode l = ''http''
                 then ''    reqadd x-forwarded-proto:'' @ [CHR 0x5C] @ '' https'' else [])
          else [])
       @ NL @ NL"

definition hostRule :: "16 word \<Rightarrow> string \<Rightarrow> HaproxyBackend \<Rightarrow> string" where
  "hostRule port hostname backend =
     ''    # Set up backend selection for '' @ hostname @ NL
       @ ''    use_backend '' @ BackendName backend @ '' if { hdr(host) -i '' @ hostname
           @ '' }'' @ NL
       @ ''    use_backend '' @ BackendName backend @ '' if { hdr(host) -i '' @ hostname
           @ '':'' @ Itoa (uint port) @ '' }'' @ NL"

definition frontendRules :: "16 word \<Rightarrow> haproxyListener \<Rightarrow> string" where
  "frontendRules port l =
     (if mode l = ''http'' then
        concat (map (\<lambda>(hostname, backend). hostRule port hostname backend)
          (byKey (hostnameBackends l)))
      else if mode l = ''tcp'' then
        (case map_of (hostnameBackends l) ''_'' of
           None \<Rightarrow> []
         | Some backend \<Rightarrow>
             ''    # Set up default_backend'' @ NL
               @ ''    default_backend '' @ BackendName backend @ NL)
      else [])
     @ NL"

definition frontendText :: "string \<Rightarrow> 16 word \<Rightarrow> haproxyListener \<Rightarrow> string" where
  "frontendText listenIP port l = frontendHead listenIP port l @ frontendRules port l"

definition frontendsText :: "HaproxyConfigurator \<Rightarrow> string" where
  "frontendsText h =
     concat (map (\<lambda>(listenIP, inner).
         concat (map (\<lambda>(port, l). frontendText listenIP port l) (byKey inner)))
       (byKey (listenIPs (desiredConfig h))))"

text \<open>
  The backends in the order of the second pass, each with the mode of its listener.
\<close>

definition backendSeq :: "HaproxyConfigurator \<Rightarrow> (string \<times> HaproxyBackend) list" where
  "backendSeq h =
     concat (map (\<lambda>(listenIP, inner).
         concat (map (\<lambda>(port, l). map (\<lambda>(hostname, backend). (mode l, backend))
           (byKey (hostnameBackends l))) (byKey inner)))
       (byKey (listenIPs (desiredConfig h))))"

definition serverLine :: "HaproxyBackend \<Rightarrow> HaproxyBackendServer \<Rightarrow> string" where
  "serverLine backend backendServer =
     ''    server '' @ ServerName backendServer @ '' '' @ ServerIP backendServer @ '':''
       @ Itoa (uint (ServerPort backendServer)) @ '' check''
       @ (if UseSSL backend
          then '' ssl'' @ (if \<not> VerifySSL backend then '' verify none'' else [])
          else [])
       @ NL"

definition backendText :: "string \<Rightarrow> HaproxyBackend \<Rightarrow> HaproxyBackendServer list \<Rightarrow> string" where
  "backendText listenerMode backend servers =
     ''backend '' @ BackendName backend @ NL
       @ ''    mode '' @ listenerMode @ NL
       @ ''    balance '' @ BalanceMethod backend @ NL
       @ NL
       @ ''    # Backend Servers'' @ NL
       @ concat (map (serverLine backend) servers)
       @ NL"

text \<open>
  The backend stanzas of a store whose backends do not get into each other's way: every
  backend lists its servers as they are in the heap before \<open>Render\<close>, sorted.
\<close>

definition backendsText ::
  "(HaproxyBackendServer list \<Rightarrow> HaproxyBackendServer list) \<Rightarrow> heap \<Rightarrow> HaproxyConfigurator
     \<Rightarrow> string" where
  "backendsText srt hp h =
     concat (map (\<lambda>(listenerMode, backend).
         backendText listenerMode backend (srt (readSlice hp (Backends backend))))
       (backendSeq h))"

text \<open>
  The second pass as one loop over \<open>backendSeq\<close>: a step appends the stanza of a
  backend and sorts its servers in the heap.
\<close>

definition backendStep ::
  "(HaproxyBackendServer list \<Rightarrow> HaproxyBackendServer list) \<Rightarrow> string \<times> heap
     \<Rightarrow> string \<times> HaproxyBackend \<Rightarrow> string \<times> heap" where
  "backendStep srt st entry = fst (backendStanza srt (fst entry) (snd entry) st)"

section \<open>Stores that render alike\<close>

text \<open>
  Two listeners that differ at most in what \<open>Render\<close> does not look at: the order and
  the repetitions of the certificates.
\<close>

definition sameListener :: "haproxyListener \<Rightarrow> haproxyListener \<Rightarrow> bool" where
  "sameListener l1 l2 =
     (name l1 = name l2 \<and> mode l1 = mode l2 \<and> useSSL l1 = useSSL l2 \<and>
      set (sslCertificates l1) = set (sslCertificates l2) \<and>
      hostnameBackends l1 = hostnameBackends l2)"

definition sameStore :: "HaproxyConfigurator \<Rightarrow> HaproxyConfigurator \<Rightarrow> bool" where
  "sameStore h1 h2 =
     list_all2 (rel_prod (=) (list_all2 (rel_prod (=) sameListener)))
       (listenIPs (desiredConfig h1)) (listenIPs (desiredConfig h2))"

text \<open>
  Two association lists that stand for the same Go map, up to \<open>R\<close> on the values: the
  same keys, each once, in whatever order, with related values. Two listeners, and two
  stores, that hold the same maps.
\<close>

definition eqMap :: "('v \<Rightarrow> 'v \<Rightarrow> bool) \<Rightarrow> ('k, 'v) gomap \<Rightarrow> ('k, 'v) gomap \<Rightarrow> bool" where
  "eqMap R m1 m2 =
     (distinct (map fst m1) \<and> distinct (map fst m2) \<and>
      (\<forall>k. rel_option R (map_of m1 k) (map_of m2 k)))"

definition permListener :: "haproxyListener \<Rightarrow> haproxyListener \<Rightarrow> bool" where
  "permListener l1 l2 =
     (name l1 = name l2 \<and> mode l1 = mode l2 \<and> useSSL l1 = useSSL l2 \<and>
      sslCertificates l1 = sslCertificates l2 \<and>
      eqMap (=) (hostnameBackends l1) (hostnameBackends l2))"

definition permStore :: "HaproxyConfigurator \<Rightarrow> HaproxyConfigurator \<Rightarrow> bool" where
  "permStore h1 h2 =
     eqMap (eqMap permListener) (listenIPs (desiredConfig h1)) (listenIPs (desiredConfig h2))"

section \<open>Example stores and requests\<close>

text \<open>The request of the end-to-end example, and stores that hold one listener.\<close>

definition emptyStore :: HaproxyConfigurator where
  "emptyStore = Initialize \<lparr>desiredConfig = \<lparr>listenIPs = []\<rparr>\<rparr>"

text \<open>The heap of the example: one array, which holds the one server.\<close>

definition exampleHeap :: heap where
  "exampleHeap = [[\<lparr>ServerName = ''n1'', ServerIP = ''10.0.0.5'', ServerPort = 8080\<rparr>]]"

definition exampleBackend :: HaproxyBackend where
  "exampleBackend =
     \<lparr>BackendName = ''web-be'', BalanceMethod = ''roundrobin'', UseSSL = False, VerifySSL = False,
      Backends = \<lparr>slicePtr = 0, sliceOff = 0, sliceLen = 1\<rparr>\<rparr>"

text \<open>
  Two sorts by server name. The insertion sort is stable; it is what \<open>sort.Slice\<close> runs
  on a slice of up to twelve elements, and no example has more. The second sort is not
  stable: it leaves servers of the same name in the reverse of the order it found them
  in, unless the slice was sorted already.
\<close>

definition insertionSort :: "HaproxyBackendServer list \<Rightarrow> HaproxyBackendServer list" where
  "insertionSort servers = sort_key ServerName servers"

definition tiesReversedSort :: "HaproxyBackendServer list \<Rightarrow> HaproxyBackendServer list" where
  "tiesReversedSort servers =
     (if sorted (map ServerName servers) then servers else sort_key ServerName (rev servers))"

definition exampleRequest :: HaproxyListenerConfig where
  "exampleRequest =
     \<lparr>Name = ''web'', Backend = exampleBackend, Hostname = ''example.com'',
      ListenIP = ''0.0.0.0'', ListenPort = 80, Mode = ''http'', SslCertificate = '''',
      validationErrors = []\<rparr>"

definition exampleListener :: "string \<Rightarrow> string list \<Rightarrow> string \<Rightarrow> haproxyListener" where
  "exampleListener m certs hostname =
     \<lparr>name = ''web'', mode = m, sslCertificates = certs,
      hostnameBackends = [(hostname, exampleBackend)], useSSL = (certs \<noteq> [])\<rparr>"

definition exampleStore :: "haproxyListener \<Rightarrow> HaproxyConfigurator" where
  "exampleStore l = \<lparr>desiredConfig = \<lparr>listenIPs = [(''0.0.0.0'', [(80, l)])]\<rparr>\<rparr>"

definition exampleText :: string where
  "exampleText =
     ''frontend web'' @ NL @
     ''    mode http'' @ NL @
     ''    bind 0.0.0.0:80'' @ NL @
     NL @
     ''    # Set up backend selection for example.com'' @ NL @
     ''    use_backend web-be if { hdr(host) -i example.com }'' @ NL @
     ''    use_backend web-be if { hdr(host) -i example.com:80 }'' @ NL @
     NL @
     ''backend web-be'' @ NL @
     ''    mode http'' @ NL @
     ''    balance roundrobin'' @ NL @
     NL @
     ''    # Backend Servers'' @ NL @
     ''    server n1 10.0.0.5:8080 check'' @ NL @
     NL"

text \<open>The text of a store whose one http listener has the certificates a.pem and b.pem.\<close>

definition sslExampleText :: string where
  "sslExampleText =
     ''frontend web'' @ NL @
     ''    mode http'' @ NL @
     ''    bind 0.0.0.0:80 ssl crt a.pem crt b.pem'' @ NL @
     ''    reqadd x-forwarded-proto:'' @ [CHR 0x5C] @ '' https'' @ NL @
     NL @
     ''    # Set up backend selection for example.com'' @ NL @
     ''    use_backend web-be if { hdr(host) -i example.com }'' @ NL @
     ''    use_backend web-be if { hdr(host) -i example.com:80 }'' @ NL @
     NL @
     ''backend web-be'' @ NL @
     ''    mode http'' @ NL @
     ''    balance roundrobin'' @ NL @
     NL @
     ''    # Backend Servers'' @ NL @
     ''    server n1 10.0.0.5:8080 check'' @ NL @
     NL"

text \<open>The text of a store whose one listener is in mode tcp.\<close>

definition tcpExampleText :: string where
  "tcpExampleText =
     ''frontend web'' @ NL @
     ''    mode tcp'' @ NL @
     ''    bind 0.0.0.0:80'' @ NL @
     NL @
     ''    # Set up default_backend'' @ NL @
     ''    default_backend web-be'' @ NL @
     NL @
     ''backend web-be'' @ NL @
     ''    mode tcp'' @ NL @
     ''    balance roundrobin'' @ NL @
     NL @
     ''    # Backend Servers'' @ NL @
     ''    server n1 10.0.0.5:8080 check'' @ NL @
     NL"

text \<open>Stores with several listeners on the address 0.0.0.0, and the text of one of them.\<close>

definition portsStore :: "(16 word, haproxyListener) gomap \<Rightarrow> HaproxyConfigurator" where
  "portsStore inner = \<lparr>desiredConfig = \<lparr>listenIPs = [(''0.0.0.0'', inner)]\<rparr>\<rparr>"

definition twoPortText :: string where
  "twoPortText =
     ''frontend web'' @ NL @
     ''    mode http'' @ NL @
     ''    bind 0.0.0.0:80'' @ NL @
     NL @
     ''    # Set up backend selection for example.com'' @ NL @
     ''    use_backend web-be if { hdr(host) -i example.com }'' @ NL @
     ''    use_backend web-be if { hdr(host) -i example.com:80 }'' @ NL @
     NL @
     ''frontend web'' @ NL @
     ''    mode http'' @ NL @
     ''    bind 0.0.0.0:443 ssl crt a.pem crt b.pem'' @ NL @
     ''    reqadd x-forwarded-proto:'' @ [CHR 0x5C] @ '' https'' @ NL @
     NL @
     ''    # Set up backend selection for example.com'' @ NL @
     ''    use_backend web-be if { hdr(host) -i example.com }'' @ NL @
     ''    use_backend web-be if { hdr(host) -i example.com:443 }'' @ NL @
     NL @
     ''backend web-be'' @ NL @
     ''    mode http'' @ NL @
     ''    balance roundrobin'' @ NL @
     NL @
     ''    # Backend Servers'' @ NL @
     ''    server n1 10.0.0.5:8080 check'' @ NL @
     NL @
     ''backend web-be'' @ NL @
     ''    mode http'' @ NL @
     ''    balance roundrobin'' @ NL @
     NL @
     ''    # Backend Servers'' @ NL @
     ''    server n1 10.0.0.5:8080 check'' @ NL @
     NL"

text \<open>
  Two backends whose slices overlap: the caller cut both out of one array of three
  servers, the first as the elements 0 and 1, the second as the elements 1 and 2. The
  two requests put them under two hostnames of one listener.
\<close>

definition server :: "string \<Rightarrow> string \<Rightarrow> HaproxyBackendServer" where
  "server n ip = \<lparr>ServerName = n, ServerIP = ip, ServerPort = 8080\<rparr>"

definition overlapHeap :: heap where
  "overlapHeap = [[server ''c'' ''10.0.0.3'', server ''b'' ''10.0.0.2'', server ''a'' ''10.0.0.1'']]"

definition overlapBackend :: "string \<Rightarrow> nat \<Rightarrow> HaproxyBackend" where
  "overlapBackend n off =
     \<lparr>BackendName = n, BalanceMethod = ''roundrobin'', UseSSL = False, VerifySSL = False,
      Backends = \<lparr>slicePtr = 0, sliceOff = off, sliceLen = 2\<rparr>\<rparr>"

definition overlapRequests :: "HaproxyListenerConfig list" where
  "overlapRequests =
     [exampleRequest\<lparr>Hostname := ''h1'', Backend := overlapBackend ''be1'' 0\<rparr>,
      exampleRequest\<lparr>Hostname := ''h2'', Backend := overlapBackend ''be2'' 1\<rparr>]"

definition overlapStore :: HaproxyConfigurator where
  "overlapStore =
     exampleStore \<lparr>name = ''web'', mode = ''http'', sslCertificates = [],
       hostnameBackends = [(''h1'', overlapBackend ''be1'' 0), (''h2'', overlapBackend ''be2'' 1)],
       useSSL = False\<rparr>"

definition overlapFrontend :: string where
  "overlapFrontend =
     ''frontend web'' @ NL @
     ''    mode http'' @ NL @
     ''    bind 0.0.0.0:80'' @ NL @
     NL @
     ''    # Set up backend selection for h1'' @ NL @
     ''    use_backend be1 if { hdr(host) -i h1 }'' @ NL @
     ''    use_backend be1 if { hdr(host) -i h1:80 }'' @ NL @
     ''    # Set up backend selection for h2'' @ NL @
     ''    use_backend be2 if { hdr(host) -i h2 }'' @ NL @
     ''    use_backend be2 if { hdr(host) -i h2:80 }'' @ NL @
     NL"

text \<open>What the first call of \<open>Render\<close> prints for the two backends, and what the second.\<close>

definition overlapText1 :: string where
  "overlapText1 =
     overlapFrontend @
     ''backend be1'' @ NL @
     ''    mode http'' @ NL @
     ''    balance roundrobin'' @ NL @
     NL @
     ''    # Backend Servers'' @ NL @
     ''    server b 10.0.0.2:8080 check'' @ NL @
     ''    server c 10.0.0.3:8080 check'' @ NL @
     NL @
     ''backend be2'' @ NL @
     ''    mode http'' @ NL @
     ''    balance roundrobin'' @ NL @
     NL @
     ''    # Backend Servers'' @ NL @
     ''    server a 10.0.0.1:8080 check'' @ NL @
     ''    server c 10.0.0.3:8080 check'' @ NL @
     NL"

definition overlapText2 :: string where
  "overlapText2 =
     overlapFrontend @
     ''backend be1'' @ NL @
     ''    mode http'' @ NL @
     ''    balance roundrobin'' @ NL @
     NL @
     ''    # Backend Servers'' @ NL @
     ''    server a 10.0.0.1:8080 check'' @ NL @
     ''    server b 10.0.0.2:8080 check'' @ NL @
     NL @
     ''backend be2'' @ NL @
     ''    mode http'' @ NL @
     ''    balance roundrobin'' @ NL @
     NL @
     ''    # Backend Servers'' @ NL @
     ''    server b 10.0.0.2:8080 check'' @ NL @
     ''    server c 10.0.0.3:8080 check'' @ NL @
     NL"

text \<open>
  A store whose one listener has two certificates and one backend with two servers, in
  an array of their own, and its text.
\<close>

definition pairHeap :: "string \<Rightarrow> string \<Rightarrow> heap" where
  "pairHeap n1 n2 = [[server n1 ''10.0.0.5'', server n2 ''10.0.0.5'']]"

definition pairStore :: "string list \<Rightarrow> HaproxyConfigurator" where
  "pairStore certs =
     exampleStore \<lparr>name = ''web'', mode = ''http'', sslCertificates = certs,
       hostnameBackends = [(''example.com'', overlapBackend ''web-be'' 0)], useSSL = True\<rparr>"

definition pairText :: string where
  "pairText =
     ''frontend web'' @ NL @
     ''    mode http'' @ NL @
     ''    bind 0.0.0.0:80 ssl crt a.pem crt b.pem'' @ NL @
     ''    reqadd x-forwarded-proto:'' @ [CHR 0x5C] @ '' https'' @ NL @
     NL @
     ''    # Set up backend selection for example.com'' @ NL @
     ''    use_backend web-be if { hdr(host) -i example.com }'' @ NL @
     ''    use_backend web-be if { hdr(host) -i example.com:80 }'' @ NL @
     NL @
     ''backend web-be'' @ NL @
     ''    mode http'' @ NL @
     ''    balance roundrobin'' @ NL @
     NL @
     ''    # Backend Servers'' @ NL @
     ''    server n1 10.0.0.5:8080 check'' @ NL @
     ''    server n2 10.0.0.5:8080 check'' @ NL @
     NL"

text \<open>The text of a store whose one http listener has the certificate cert.pem.\<close>

definition certExampleText :: string where
  "certExampleText =
     ''frontend web'' @ NL @
     ''    mode http'' @ NL @
     ''    bind 0.0.0.0:80 ssl crt cert.pem'' @ NL @
     ''    reqadd x-forwarded-proto:'' @ [CHR 0x5C] @ '' https'' @ NL @
     NL @
     ''    # Set up backend selection for example.com'' @ NL @
     ''    use_backend web-be if { hdr(host) -i example.com }'' @ NL @
     ''    use_backend web-be if { hdr(host) -i example.com:80 }'' @ NL @
     NL @
     ''backend web-be'' @ NL @
     ''    mode http'' @ NL @
     ''    balance roundrobin'' @ NL @
     NL @
     ''    # Backend Servers'' @ NL @
     ''    server n1 10.0.0.5:8080 check'' @ NL @
     NL"

lemmas eval_defs =
  emptyStore_def Initialize_def exampleBackend_def exampleRequest_def exampleListener_def
  exampleStore_def exampleText_def sslExampleText_def tcpExampleText_def
  portsStore_def twoPortText_def NL_def Itoa_def digits.simps digitChar_def
  addValidationError_def invalidModeMessage_def modeMismatchMessage_def sslMismatchMessage_def
  lookupListener_def checkMode_def validate_def newListener_def mergeRequest_def
  storeListener_def duplicateTcpMessage_def duplicateTcpPanic_def AddListener_def
  collectIPs_def sortListenerMap_def sortBackendMap_def frontendStanza_def backendStanza_def
  backendStanzas_def buildFrontEnds_def buildBackEnds_def Render_def
  wf_store_def tcpHasBackend_def tcpListenersHaveBackend_def RenderText_def
  array_def readSlice_def sortSlice_def exampleHeap_def insertionSort_def tiesReversedSort_def
  server_def overlapHeap_def overlapBackend_def overlapRequests_def overlapStore_def
  overlapFrontend_def overlapText1_def overlapText2_def certExampleText_def
  pairHeap_def pairStore_def pairText_def

lemmas text_defs =
  frontendsText_def backendsText_def byKey_def backendSeq_def frontendText_def frontendHead_def
  frontendRules_def hostRule_def backendText_def serverLine_def crtDirective_def
  storedBackends_def ownSlices_def sameOrApart_def sortedStore_def sortCertificates_def

section \<open>Validation\<close>

lemma addValidationError_simps [simp]:
  "Name (addValidationError hlc m) = Name hlc"
  "Backend (addValidationError hlc m) = Backend hlc"
  "Hostname (addValidationError hlc m) = Hostname hlc"
  "ListenIP (addValidationError hlc m) = ListenIP hlc"
  "ListenPort (addValidationError hlc m) = ListenPort hlc"
  "Mode (addValidationError hlc m) = Mode hlc"
  "SslCertificate (addValidationError hlc m) = SslCertificate hlc"
  "validationErrors (addValidationError hlc m) = validationErrors hlc @ [m]"
  by (simp_all add: addValidationError_def)

lemma checkMode_simps [simp]:
  "Name (snd (checkMode hlc)) = Name hlc"
  "Backend (snd (checkMode hlc)) = Backend hlc"
  "Hostname (snd (checkMode hlc)) = Hostname hlc"
  "ListenIP (snd (checkMode hlc)) = ListenIP hlc"
  "ListenPort (snd (checkMode hlc)) = ListenPort hlc"
  "Mode (snd (checkMode hlc)) = Mode hlc"
  "SslCertificate (snd (checkMode hlc)) = SslCertificate hlc"
  by (simp_all add: checkMode_def)

lemma lookupListener_None:
  "lookupListener h ip port = None \<longleftrightarrow>
     (map_of (listenIPs (desiredConfig h)) ip = None \<or>
      (\<exists>inner. map_of (listenIPs (desiredConfig h)) ip = Some inner \<and> map_of inner port = None))"
  by (cases "map_of (listenIPs (desiredConfig h)) ip") (simp_all add: lookupListener_def)

lemma lookupListener_Some:
  "lookupListener h ip port = Some l \<longleftrightarrow>
     (\<exists>inner. map_of (listenIPs (desiredConfig h)) ip = Some inner \<and> map_of inner port = Some l)"
  by (cases "map_of (listenIPs (desiredConfig h)) ip") (simp_all add: lookupListener_def)

lemma validate_None:
  assumes "lookupListener h (ListenIP hlc) (ListenPort hlc) = None"
  shows "validate hlc h = checkMode hlc"
proof -
  obtain v c where vc: "checkMode hlc = (v, c)" by (cases "checkMode hlc")
  have c: "ListenIP c = ListenIP hlc" "ListenPort c = ListenPort hlc"
    using checkMode_simps(4,5)[of hlc] by (simp_all add: vc)
  from assms show ?thesis
    unfolding lookupListener_None
  proof (elim disjE exE conjE)
    assume "map_of (listenIPs (desiredConfig h)) (ListenIP hlc) = None"
    then show ?thesis
      by (simp only: validate_def vc Let_def prod.case c option.case)
  next
    fix inner
    assume "map_of (listenIPs (desiredConfig h)) (ListenIP hlc) = Some inner"
      "map_of inner (ListenPort hlc) = None"
    then show ?thesis
      by (simp only: validate_def vc Let_def prod.case c option.case)
  qed
qed

lemma validate_Some:
  assumes "lookupListener h (ListenIP hlc) (ListenPort hlc) = Some l"
  shows "validate hlc h =
     (let (validated, hlc) = checkMode hlc;
          (validated, hlc) =
             (if mode l \<noteq> Mode hlc
              then (False, addValidationError hlc modeMismatchMessage)
              else (validated, hlc));
          (validated, hlc) =
             (if useSSL l \<noteq> (SslCertificate hlc \<noteq> '''')
              then (False, addValidationError hlc sslMismatchMessage)
              else (validated, hlc))
       in (validated, hlc))"
proof -
  obtain v c where vc: "checkMode hlc = (v, c)" by (cases "checkMode hlc")
  have c: "ListenIP c = ListenIP hlc" "ListenPort c = ListenPort hlc"
    using checkMode_simps(4,5)[of hlc] by (simp_all add: vc)
  from assms obtain inner where
    "map_of (listenIPs (desiredConfig h)) (ListenIP hlc) = Some inner"
    "map_of inner (ListenPort hlc) = Some l"
    unfolding lookupListener_Some by blast
  then show ?thesis
    by (simp only: validate_def vc Let_def prod.case c option.case)
qed

lemma validate_errors:
  "validationErrors (snd (validate hlc h)) =
     validationErrors hlc
       @ (if Mode hlc \<noteq> ''http'' \<and> Mode hlc \<noteq> ''tcp'' then [invalidModeMessage (Mode hlc)] else [])
       @ (case lookupListener h (ListenIP hlc) (ListenPort hlc) of
            None \<Rightarrow> []
          | Some l \<Rightarrow>
              (if mode l \<noteq> Mode hlc then [modeMismatchMessage] else [])
                @ (if useSSL l \<noteq> (SslCertificate hlc \<noteq> '''') then [sslMismatchMessage] else []))"
proof (cases "lookupListener h (ListenIP hlc) (ListenPort hlc)")
  case None
  then show ?thesis by (simp add: validate_None checkMode_def)
next
  case (Some l)
  then show ?thesis
    apply (simp only: validate_Some[OF Some] option.case)
    apply (cases "Mode hlc \<noteq> ''http'' \<and> Mode hlc \<noteq> ''tcp''"; cases "mode l \<noteq> Mode hlc"; cases "useSSL l \<noteq> (SslCertificate hlc \<noteq> '''')")
    apply (simp_all add: checkMode_def)
    done
qed

lemma validate_verdict:
  "fst (validate hlc h) \<longleftrightarrow>
     (Mode hlc = ''http'' \<or> Mode hlc = ''tcp'') \<and>
     (\<forall>l. lookupListener h (ListenIP hlc) (ListenPort hlc) = Some l \<longrightarrow>
        mode l = Mode hlc \<and> useSSL l = (SslCertificate hlc \<noteq> ''''))"
proof (cases "lookupListener h (ListenIP hlc) (ListenPort hlc)")
  case None
  then show ?thesis by (simp add: validate_None checkMode_def)
next
  case (Some l)
  then show ?thesis
    apply (simp only: validate_Some[OF Some] option.case)
    apply (cases "Mode hlc \<noteq> ''http'' \<and> Mode hlc \<noteq> ''tcp''"; cases "mode l \<noteq> Mode hlc"; cases "useSSL l \<noteq> (SslCertificate hlc \<noteq> '''')")
    apply (simp_all add: checkMode_def)
    done
qed

lemma validate_fields_conj:
  "Name (snd (validate hlc h)) = Name hlc \<and>
   Backend (snd (validate hlc h)) = Backend hlc \<and>
   Hostname (snd (validate hlc h)) = Hostname hlc \<and>
   ListenIP (snd (validate hlc h)) = ListenIP hlc \<and>
   ListenPort (snd (validate hlc h)) = ListenPort hlc \<and>
   Mode (snd (validate hlc h)) = Mode hlc \<and>
   SslCertificate (snd (validate hlc h)) = SslCertificate hlc"
proof (cases "lookupListener h (ListenIP hlc) (ListenPort hlc)")
  case None
  then show ?thesis by (simp add: validate_None)
next
  case (Some l)
  show ?thesis
    apply (simp only: validate_Some[OF Some])
    apply (cases "Mode hlc \<noteq> ''http'' \<and> Mode hlc \<noteq> ''tcp''"; cases "mode l \<noteq> Mode hlc"; cases "useSSL l \<noteq> (SslCertificate hlc \<noteq> [])")
           apply (simp_all add: checkMode_def)
    done
qed

lemma validate_fields [simp]:
  "Name (snd (validate hlc h)) = Name hlc"
  "Backend (snd (validate hlc h)) = Backend hlc"
  "Hostname (snd (validate hlc h)) = Hostname hlc"
  "ListenIP (snd (validate hlc h)) = ListenIP hlc"
  "ListenPort (snd (validate hlc h)) = ListenPort hlc"
  "Mode (snd (validate hlc h)) = Mode hlc"
  "SslCertificate (snd (validate hlc h)) = SslCertificate hlc"
  using validate_fields_conj[of hlc h] by simp_all

lemma AddListener_rejected:
  "\<not> fst (validate hlc h) \<Longrightarrow>
     AddListener h hlc =
       Returned (Name hlc # map (\<lambda>message. ''  '' @ message)
         (validationErrors (snd (validate hlc h)))) h"
  using validate_fields(1)[of hlc h]
  by (cases "validate hlc h") (simp add: AddListener_def)

lemma mergeRequest_validate [simp]:
  "mergeRequest (snd (validate hlc h)) l = mergeRequest hlc l"
  "newListener (snd (validate hlc h)) = newListener hlc"
  by (simp_all add: mergeRequest_def newListener_def)

lemma AddListener_accepted:
  "fst (validate hlc h) \<Longrightarrow>
     AddListener h hlc =
       (case lookupListener h (ListenIP hlc) (ListenPort hlc) of
          None \<Rightarrow> Returned [] (storeListener h (ListenIP hlc) (ListenPort hlc)
                     (mergeRequest hlc (newListener hlc)))
        | Some listener \<Rightarrow>
            if Mode hlc = ''tcp''
            then Panicked [duplicateTcpMessage (ListenPort hlc)]
                   (Panic duplicateTcpPanic)
            else Returned [] (storeListener h (ListenIP hlc) (ListenPort hlc)
                   (mergeRequest hlc listener)))"
  using validate_fields[of hlc h] mergeRequest_validate[of hlc h]
  by (cases "validate hlc h"; cases "lookupListener h (ListenIP hlc) (ListenPort hlc)")
     (simp_all add: AddListener_def)

section \<open>Loops over the keys of a map\<close>

lemma map_of_in_keys:
  "k \<in> fst ` set m \<Longrightarrow> \<exists>v. map_of m k = Some v \<and> (k, v) \<in> set m"
  by (induction m) auto

lemma update_present_keys:
  "k \<in> fst ` set m \<Longrightarrow> map fst (AList.update k v m) = map fst m"
  by (induction m) auto

lemma set_update_subset:
  "set (AList.update k v m) \<subseteq> insert (k, v) (set m)"
  by (induction m) auto

lemma rangeKeys_total:
  assumes "set ks \<subseteq> fst ` set m"
    and "\<forall>(k, v) \<in> set m. P v"
    and "\<And>k v c. P v \<Longrightarrow> \<exists>t v'. body k v c = Inr (t, v') \<and> P v'"
  shows "\<exists>t m'. rangeKeys body ks m c = Inr (t, m') \<and> map fst m' = map fst m
           \<and> (\<forall>(k, v) \<in> set m'. P v)"
  using assms(1,2)
proof (induction ks arbitrary: m c)
  case Nil
  then show ?case by simp
next
  case (Cons k ks)
  from Cons.prems obtain v where v: "map_of m k = Some v" "(k, v) \<in> set m"
    using map_of_in_keys[of k m] by auto
  with Cons.prems have "P v" by auto
  then obtain t v' where b: "body k v c = Inr (t, v')" "P v'"
    using assms(3) by blast
  let ?m = "AList.update k v' m"
  have keys: "map fst ?m = map fst m"
    using v(2) by (intro update_present_keys) force
  then have "fst ` set ?m = fst ` set m" by (metis list.set_map)
  with Cons.prems have 1: "set ks \<subseteq> fst ` set ?m" by simp
  have 2: "\<forall>(k, v) \<in> set ?m. P v"
    using set_update_subset[of k v' m] Cons.prems(2) b(2) by auto
  from Cons.IH[OF 1 2, of t] keys v(1) b(1) show ?case by simp
qed

lemma map_absent_key:
  "k \<notin> fst ` set m \<Longrightarrow> map (\<lambda>(k', w). (k', if k' = k then v' else w)) m = m"
  by (induction m) auto

lemma update_as_map:
  "distinct (map fst m) \<Longrightarrow> (k, v) \<in> set m \<Longrightarrow>
     AList.update k v' m = map (\<lambda>(k', w). (k', if k' = k then v' else w)) m"
  by (induction m) (auto simp: rev_image_eqI map_absent_key)

lemma rangeKeys_result:
  assumes "distinct ks" and "distinct (map fst m)" and "set ks \<subseteq> fst ` set m"
    and "\<And>k v c t v'. (k, v) \<in> set m \<Longrightarrow> k \<in> set ks \<Longrightarrow> body k v c = Inr (t, v')
           \<Longrightarrow> v' = g k v"
    and "rangeKeys body ks m c = Inr (t, m')"
  shows "m' = map (\<lambda>(k, v). (k, if k \<in> set ks then g k v else v)) m"
  using assms
proof (induction ks arbitrary: m c)
  case Nil
  then show ?case by simp
next
  case (Cons k ks)
  from Cons.prems(3) obtain v where v: "map_of m k = Some v" "(k, v) \<in> set m"
    using map_of_in_keys[of k m] by auto
  from Cons.prems(5) v(1) obtain t1 v' where
    b: "body k v c = Inr (t1, v')" and r: "rangeKeys body ks (AList.update k v' m) t1 = Inr (t, m')"
    by (auto split: sum.splits)
  have v': "v' = g k v" using Cons.prems(4)[OF v(2) _ b] by simp
  let ?m = "AList.update k v' m"
  have m1: "?m = map (\<lambda>(k', w). (k', if k' = k then v' else w)) m"
    using update_as_map[OF Cons.prems(2) v(2)] .
  have keys: "map fst ?m = map fst m"
    using v(2) by (intro update_present_keys) force
  have d: "distinct ks" "k \<notin> set ks" using Cons.prems(1) by auto
  have 2: "distinct (map fst ?m)" using keys Cons.prems(2) by simp
  have 3: "set ks \<subseteq> fst ` set ?m"
    using Cons.prems(3) keys by (metis list.set_map set_subset_Cons subset_trans)
  have 4: "\<And>k' w c t w'. (k', w) \<in> set ?m \<Longrightarrow> k' \<in> set ks \<Longrightarrow> body k' w c = Inr (t, w')
             \<Longrightarrow> w' = g k' w"
  proof -
    fix k' w c t w'
    assume a: "(k', w) \<in> set ?m" "k' \<in> set ks" "body k' w c = Inr (t, w')"
    from a(2) d(2) have "k' \<noteq> k" by auto
    with a(1) set_update_subset[of k v' m] have "(k', w) \<in> set m" by auto
    from Cons.prems(4)[OF this _ a(3)] a(2) show "w' = g k' w" by simp
  qed
  from Cons.IH[OF d(1) 2 3 4 r]
  have "m' = map (\<lambda>(k', w). (k', if k' \<in> set ks then g k' w else w)) ?m" .
  also have "\<dots> = map (\<lambda>(k', w). (k', if k' \<in> set (k # ks) then g k' w else w)) m"
    unfolding m1 using d(2) v'
    by (auto dest: eq_key_imp_eq_value[OF Cons.prems(2) v(2)])
  finally show ?case .
qed

lemma rangeKeys_sorted_result:
  fixes m :: "('k::linorder, 'v) gomap"
  assumes "distinct (map fst m)"
    and "\<And>k v c t v'. (k, v) \<in> set m \<Longrightarrow> body k v c = Inr (t, v') \<Longrightarrow> v' = g k v"
    and "rangeKeys body (sort (map fst m)) m c = Inr (t, m')"
  shows "m' = map (\<lambda>(k, v). (k, g k v)) m"
proof -
  have "m' = map (\<lambda>(k, v). (k, if k \<in> set (sort (map fst m)) then g k v else v)) m"
    using assms by (intro rangeKeys_result[where body = body and c = c and t = t]) auto
  also have "\<dots> = map (\<lambda>(k, v). (k, g k v)) m"
    by (rule map_cong) (auto simp: rev_image_eqI)
  finally show ?thesis .
qed

lemma rangeKeys_sorted_total:
  fixes m :: "('k::linorder, 'v) gomap"
  assumes "\<forall>(k, v) \<in> set m. P v"
    and "\<And>k v c. P v \<Longrightarrow> \<exists>t v'. body k v c = Inr (t, v') \<and> P v'"
  shows "\<exists>t m'. rangeKeys body (sort (map fst m)) m c = Inr (t, m')
           \<and> (\<forall>(k, v) \<in> set m'. P v) \<and> map fst m' = map fst m"
  using rangeKeys_total[where P = P and body = body and m = m and ks = "sort (map fst m)" and c = c]
    assms by auto

lemma rel_map_of:
  "list_all2 (rel_prod (=) R) m1 m2 \<Longrightarrow> rel_option R (map_of m1 k) (map_of m2 k)"
  by (induction m1 m2 rule: list_all2_induct) auto

lemma rel_update:
  "list_all2 (rel_prod (=) R) m1 m2 \<Longrightarrow> R v1 v2 \<Longrightarrow>
     list_all2 (rel_prod (=) R) (AList.update k v1 m1) (AList.update k v2 m2)"
  by (induction m1 m2 rule: list_all2_induct) auto

lemma rel_keys:
  "list_all2 (rel_prod (=) R) m1 m2 \<Longrightarrow> map fst m1 = map fst m2"
  by (induction m1 m2 rule: list_all2_induct) auto

lemma rangeKeys_rel:
  assumes "list_all2 (rel_prod (=) R) m1 m2"
    and "\<And>k v1 v2 c. R v1 v2 \<Longrightarrow>
           rel_sum (=) (rel_prod (=) R) (body1 k v1 c) (body2 k v2 c)"
  shows "rel_sum (=) (rel_prod (=) (list_all2 (rel_prod (=) R)))
           (rangeKeys body1 ks m1 c) (rangeKeys body2 ks m2 c)"
  using assms(1)
proof (induction ks arbitrary: m1 m2 c)
  case Nil
  then show ?case by simp
next
  case (Cons k ks)
  from rel_map_of[OF Cons.prems, of k]
  show ?case
  proof (cases rule: option.rel_cases)
    case None
    then show ?thesis by simp
  next
    case (Some v1 v2)
    note b = assms(2)[OF Some(3), of k c]
    show ?thesis
    proof (cases "body1 k v1 c")
      case (Inl e1)
      with b Some show ?thesis by (cases "body2 k v2 c") simp_all
    next
      case (Inr r1)
      with b obtain r2 where Inr2: "body2 k v2 c = Inr r2" and r: "rel_prod (=) R r1 r2"
        by (cases "body2 k v2 c") simp_all
      obtain t1 w1 where r1: "r1 = (t1, w1)" by (cases r1)
      obtain t2 w2 where r2: "r2 = (t2, w2)" by (cases r2)
      from r r1 r2 have eq: "t1 = t2" "R w1 w2" by simp_all
      from Cons.IH[OF rel_update[OF Cons.prems eq(2)], of k t1] Some Inr Inr2 r1 r2 eq(1)
      show ?thesis by simp
    qed
  qed
qed

lemma rel_update_same:
  assumes "map_of m k = Some v" and "R v v'" and "\<And>x. R x x"
  shows "list_all2 (rel_prod (=) R) m (AList.update k v' m)"
  using assms(1,2)
proof (induction m)
  case Nil
  then show ?case by simp
next
  case (Cons p m)
  then show ?case
    by (cases p) (auto simp: assms(3) list_all2_same split: if_splits)
qed

lemma rangeKeys_fold:
  assumes "distinct ks"
    and "\<And>k v s s' v'. map_of m k = Some v \<Longrightarrow> k \<in> set ks \<Longrightarrow> body k v s = Inr (s', v')
           \<Longrightarrow> s' = f k v s"
    and "rangeKeys body ks m s = Inr (s', m')"
  shows "s' = foldl (\<lambda>s k. f k (the (map_of m k)) s) s ks"
  using assms
proof (induction ks arbitrary: m s)
  case Nil
  then show ?case by simp
next
  case (Cons k ks)
  from Cons.prems(3) obtain v where v: "map_of m k = Some v"
    by (auto split: option.splits)
  from Cons.prems(3) v obtain s1 v' where
    b: "body k v s = Inr (s1, v')" and r: "rangeKeys body ks (AList.update k v' m) s1 = Inr (s', m')"
    by (auto split: sum.splits)
  have s1: "s1 = f k v s" using Cons.prems(2)[OF v _ b] by simp
  let ?m = "AList.update k v' m"
  have d: "distinct ks" "k \<notin> set ks" using Cons.prems(1) by auto
  have other: "map_of ?m k' = map_of m k'" if "k' \<in> set ks" for k'
    using that d(2) by (auto simp: update_conv')
  have 2: "\<And>k' w s s' w'. map_of ?m k' = Some w \<Longrightarrow> k' \<in> set ks \<Longrightarrow> body k' w s = Inr (s', w')
             \<Longrightarrow> s' = f k' w s"
    using Cons.prems(2) other by simp
  from Cons.IH[OF d(1) 2 r]
  have "s' = foldl (\<lambda>s k. f k (the (map_of ?m k)) s) s1 ks" .
  also have "\<dots> = foldl (\<lambda>s k. f k (the (map_of m k)) s) s1 ks"
    by (rule foldl_cong) (simp_all add: other)
  finally show ?case using v s1 by simp
qed

lemma map_fst_byKey: "map fst (byKey m) = sort (map fst m)"
  unfolding byKey_def by (rule properties_for_sort[symmetric]) simp_all

lemma set_byKey [simp]: "set (byKey m) = set m"
  by (simp add: byKey_def)

lemma byKey_lookup:
  assumes "distinct (map fst m)"
  shows "map (\<lambda>k. (k, the (map_of m k))) (sort (map fst m)) = byKey m"
proof -
  have "map (\<lambda>k. (k, the (map_of m k))) (map fst (byKey m)) = map (\<lambda>p. p) (byKey m)"
    unfolding map_map
  proof (rule map_cong[OF refl])
    fix p
    assume "p \<in> set (byKey m)"
    then have "(fst p, snd p) \<in> set m" by simp
    with assms have "map_of m (fst p) = Some (snd p)" by (intro map_of_is_SomeI)
    then show "((\<lambda>k. (k, the (map_of m k))) \<circ> fst) p = p" by simp
  qed
  then show ?thesis by (simp add: map_fst_byKey)
qed

lemma rangeKeys_sorted_fold:
  fixes m :: "('k::linorder, 'v) gomap"
  assumes "distinct (map fst m)"
    and "\<And>k v s s' v'. (k, v) \<in> set m \<Longrightarrow> body k v s = Inr (s', v') \<Longrightarrow> s' = f k v s"
    and "rangeKeys body (sort (map fst m)) m s = Inr (s', m')"
  shows "s' = foldl (\<lambda>s (k, v). f k v s) s (byKey m)"
proof -
  have "s' = foldl (\<lambda>s k. f k (the (map_of m k)) s) s (sort (map fst m))"
  proof (rule rangeKeys_fold[OF _ _ assms(3)])
    show "distinct (sort (map fst m))" using assms(1) by simp
  next
    fix k v s s' v'
    assume "map_of m k = Some v" "body k v s = Inr (s', v')"
    then show "s' = f k v s" using assms(2)[of k v s s' v'] by (auto dest: map_of_SomeD)
  qed
  also have "\<dots> = foldl (\<lambda>s (k, v). f k v s) s
                    (map (\<lambda>k. (k, the (map_of m k))) (sort (map fst m)))"
    by (simp add: foldl_map)
  finally show ?thesis by (simp add: byKey_lookup[OF assms(1)])
qed

lemma foldl_append_text:
  "foldl (\<lambda>s (k, v). s @ txt k v) s xs = s @ concat (map (\<lambda>(k, v). txt k v) xs)"
  by (induction xs arbitrary: s) (simp_all add: case_prod_unfold)

lemma rangeKeys_sorted_text:
  fixes m :: "('k::linorder, 'v) gomap"
  assumes "distinct (map fst m)"
    and "\<And>k v c t v'. (k, v) \<in> set m \<Longrightarrow> body k v c = Inr (t, v') \<Longrightarrow> t = c @ txt k v"
    and "rangeKeys body (sort (map fst m)) m c = Inr (t, m')"
  shows "t = c @ concat (map (\<lambda>(k, v). txt k v) (byKey m))"
  using rangeKeys_sorted_fold[where f = "\<lambda>k v s. s @ txt k v", OF assms]
  by (simp add: foldl_append_text)

lemma byKey_map_values:
  "byKey (map (\<lambda>(k, v). (k, g k v)) m) = map (\<lambda>(k, v). (k, g k v)) (byKey m)"
proof -
  have ins: "insort_key fst (k, g k v) (map (\<lambda>(k, v). (k, g k v)) xs)
               = map (\<lambda>(k, v). (k, g k v)) (insort_key fst (k, v) xs)" for k v xs
    by (induction xs) (auto simp: case_prod_unfold)
  show ?thesis
    unfolding byKey_def by (induction m) (auto simp: ins)
qed

section \<open>Slices and the heap\<close>

lemma sortContract_insertionSort: "sortContract insertionSort"
  by (simp add: sortContract_def insertionSort_def sort_key_id_if_sorted)

text \<open>The contract does not ask for a stable sort.\<close>

lemma sortContract_tiesReversedSort: "sortContract tiesReversedSort"
  by (simp add: sortContract_def tiesReversedSort_def)

lemma tiesReversedSort_not_stable:
  "tiesReversedSort [server ''b'' ''10.0.0.1'', server ''a'' ''10.0.0.2'', server ''a'' ''10.0.0.3'']
     = [server ''a'' ''10.0.0.3'', server ''a'' ''10.0.0.2'', server ''b'' ''10.0.0.1'']"
  "insertionSort [server ''b'' ''10.0.0.1'', server ''a'' ''10.0.0.2'', server ''a'' ''10.0.0.3'']
     = [server ''a'' ''10.0.0.2'', server ''a'' ''10.0.0.3'', server ''b'' ''10.0.0.1'']"
  by (simp_all add: tiesReversedSort_def insertionSort_def server_def)

lemma sortContract_length: "sortContract srt \<Longrightarrow> length (srt servers) = length servers"
  unfolding sortContract_def by (metis mset_eq_length)

lemma sortContract_Nil: "sortContract srt \<Longrightarrow> srt [] = []"
  using sortContract_length[of srt "[]"] by simp

lemma sortContract_idem: "sortContract srt \<Longrightarrow> srt (srt servers) = srt servers"
  by (simp add: sortContract_def)

lemma length_sortSlice [simp]: "length (sortSlice srt hp s) = length hp"
  by (simp add: sortSlice_def)

lemma array_sortSlice:
  assumes "sortContract srt"
  shows "array (sortSlice srt hp s) p =
     (if p = slicePtr s
      then take (sliceOff s) (array hp p) @ srt (readSlice hp s)
             @ drop (sliceOff s + sliceLen s) (array hp p)
      else array hp p)"
  using sortContract_Nil[OF assms]
  by (simp add: array_def sortSlice_def readSlice_def)

lemma window_split:
  "take off arr @ take len (drop off arr) @ drop (off + len) arr = arr"
  by (metis add.commute append_take_drop_id drop_drop)

lemma mset_array_sortSlice:
  assumes "sortContract srt"
  shows "mset (array (sortSlice srt hp s) p) = mset (array hp p)"
proof (cases "p = slicePtr s")
  case True
  have "mset (srt (readSlice hp s)) = mset (readSlice hp s)"
    using assms by (simp add: sortContract_def)
  then have "mset (array (sortSlice srt hp s) p)
      = mset (take (sliceOff s) (array hp p) @ readSlice hp s
               @ drop (sliceOff s + sliceLen s) (array hp p))"
    using True by (simp add: array_sortSlice[OF assms])
  also have "\<dots> = mset (array hp p)"
    unfolding readSlice_def True window_split ..
  finally show ?thesis .
next
  case False
  then show ?thesis by (simp add: array_sortSlice[OF assms])
qed

lemma window_written:
  assumes "length ys = length (take len (drop off arr))"
  shows "take len (drop off (take off arr @ ys @ drop (off + len) arr)) = ys"
proof (cases "off + len \<le> length arr")
  case True
  with assms show ?thesis by simp
next
  case False
  then have "drop (off + len) arr = []" by simp
  with assms show ?thesis by (cases "off \<le> length arr") simp_all
qed

lemma window_after:
  assumes "length ys = length (take len (drop off arr))" and "off + len \<le> off'"
  shows "drop off' (take off arr @ ys @ drop (off + len) arr) = drop off' arr"
proof (cases "off + len \<le> length arr")
  case True
  with assms show ?thesis by (simp add: min_def)
next
  case False
  with assms show ?thesis by simp
qed

lemma window_before:
  assumes "length ys = length (take len (drop off arr))" and "n \<le> off"
  shows "take n (take off arr @ ys @ drop (off + len) arr) = take n arr"
proof (cases "off \<le> length arr")
  case True
  with assms show ?thesis by (simp add: min_def)
next
  case False
  with assms show ?thesis by simp
qed

lemma readSlice_sortSlice_same:
  assumes "sortContract srt"
  shows "readSlice (sortSlice srt hp s) s = srt (readSlice hp s)"
proof -
  have "length (srt (readSlice hp s))
          = length (take (sliceLen s) (drop (sliceOff s) (array hp (slicePtr s))))"
    by (simp add: sortContract_length[OF assms] readSlice_def)
  from window_written[OF this] show ?thesis
    by (simp add: readSlice_def[of "sortSlice srt hp s"] array_sortSlice[OF assms])
qed

lemma readSlice_sortSlice_other:
  assumes "sortContract srt" and "sameOrApart s s'" and "s \<noteq> s'"
  shows "readSlice (sortSlice srt hp s) s' = readSlice hp s'"
proof (cases "slicePtr s' = slicePtr s")
  case False
  then show ?thesis by (simp add: readSlice_def array_sortSlice[OF assms(1)])
next
  case True
  let ?arr = "array hp (slicePtr s)"
  let ?arr' = "take (sliceOff s) ?arr @ srt (readSlice hp s) @ drop (sliceOff s + sliceLen s) ?arr"
  have len: "length (srt (readSlice hp s))
          = length (take (sliceLen s) (drop (sliceOff s) ?arr))"
    by (simp add: sortContract_length[OF assms(1)] readSlice_def)
  have arr': "array (sortSlice srt hp s) (slicePtr s) = ?arr'"
    by (simp add: array_sortSlice[OF assms(1)])
  have r1: "readSlice (sortSlice srt hp s) s' = take (sliceLen s') (drop (sliceOff s') ?arr')"
    unfolding readSlice_def[of "sortSlice srt hp s" s'] True arr' by (rule refl)
  have r2: "readSlice hp s' = take (sliceLen s') (drop (sliceOff s') ?arr)"
    unfolding readSlice_def[of hp s'] True by (rule refl)
  from assms(2,3) True consider
    (empty) "sliceLen s = 0" | (empty') "sliceLen s' = 0"
  | (before) "sliceOff s + sliceLen s \<le> sliceOff s'"
  | (after) "sliceOff s' + sliceLen s' \<le> sliceOff s"
    by (auto simp: sameOrApart_def)
  then have "take (sliceLen s') (drop (sliceOff s') ?arr')
               = take (sliceLen s') (drop (sliceOff s') ?arr)"
  proof cases
    case empty
    then have "readSlice hp s = []" by (simp add: readSlice_def)
    with empty show ?thesis by (simp add: sortContract_Nil[OF assms(1)])
  next
    case empty'
    then show ?thesis by simp
  next
    case before
    from window_after[OF len before] show ?thesis by simp
  next
    case after
    have td: "take (sliceLen s') (drop (sliceOff s') xs)
            = drop (sliceOff s') (take (sliceOff s' + sliceLen s') xs)"
      for xs :: "HaproxyBackendServer list"
      by (simp add: drop_take add.commute)
    have "take (sliceLen s') (drop (sliceOff s') ?arr')
            = drop (sliceOff s') (take (sliceOff s' + sliceLen s') ?arr')"
      by (rule td)
    also have "\<dots> = drop (sliceOff s') (take (sliceOff s' + sliceLen s') ?arr)"
      by (simp only: window_before[OF len after])
    also have "\<dots> = take (sliceLen s') (drop (sliceOff s') ?arr)"
      by (rule td[symmetric])
    finally show ?thesis .
  qed
  then show ?thesis
    unfolding r1 r2 .
qed

lemma length_fold_sortSlice [simp]: "length (foldl (sortSlice srt) hp ss) = length hp"
  by (induction ss arbitrary: hp) simp_all

lemma mset_array_fold_sortSlice:
  assumes "sortContract srt"
  shows "mset (array (foldl (sortSlice srt) hp ss) p) = mset (array hp p)"
  by (induction ss arbitrary: hp) (simp_all add: mset_array_sortSlice[OF assms])

lemma readSlice_fold_sortSlice:
  assumes "sortContract srt" and "\<forall>s' \<in> set ss. sameOrApart s' s"
  shows "readSlice (foldl (sortSlice srt) hp ss) s =
           (if s \<in> set ss then srt (readSlice hp s) else readSlice hp s)"
  using assms(2)
proof (induction ss arbitrary: hp)
  case Nil
  then show ?case by simp
next
  case (Cons s1 ss)
  from Cons.prems have rest: "\<forall>s' \<in> set ss. sameOrApart s' s" and s1: "sameOrApart s1 s"
    by simp_all
  note IH = Cons.IH[OF rest, of "sortSlice srt hp s1"]
  show ?case
  proof (cases "s1 = s")
    case True
    with IH show ?thesis
      by (simp add: readSlice_sortSlice_same[OF assms(1)] sortContract_idem[OF assms(1)])
  next
    case False
    with IH readSlice_sortSlice_other[OF assms(1) s1 False, of hp] show ?thesis by auto
  qed
qed

lemma sortSlice_sorted:
  assumes "sortContract srt" and "sorted (map ServerName (readSlice hp s))"
  shows "sortSlice srt hp s = hp"
proof -
  from assms have "srt (readSlice hp s) = readSlice hp s" by (simp add: sortContract_def)
  then have "sortSlice srt hp s = hp[slicePtr s := array hp (slicePtr s)]"
    unfolding sortSlice_def by (simp add: readSlice_def window_split)
  then show ?thesis by (simp add: array_def list_update_beyond)
qed

lemma fold_sortSlice_sorted:
  assumes "sortContract srt" and "\<forall>s \<in> set ss. sorted (map ServerName (readSlice hp s))"
  shows "foldl (sortSlice srt) hp ss = hp"
  using assms(2) by (induction ss) (simp_all add: sortSlice_sorted[OF assms(1)])

section \<open>The loops of Render\<close>

lemma rangeKeys_keys:
  "rangeKeys body ks m s = Inr (s', m') \<Longrightarrow> map fst m' = map fst m"
proof (induction ks arbitrary: m s)
  case Nil
  then show ?case by simp
next
  case (Cons k ks)
  from Cons.prems obtain v where v: "map_of m k = Some v"
    by (auto split: option.splits)
  from Cons.prems v obtain s1 v' where
    r: "rangeKeys body ks (AList.update k v' m) s1 = Inr (s', m')"
    by (auto split: sum.splits)
  from v have "k \<in> fst ` set m" by (auto dest: map_of_SomeD simp: rev_image_eqI)
  with Cons.IH[OF r] show ?case by (simp add: update_present_keys)
qed

lemma collectIPs_sort: "collectIPs m = sort (map fst m)"
proof -
  have "foldl (\<lambda>ips listenIP. sort (ips @ [listenIP])) acc ks = sort (acc @ ks)"
    if "sorted acc" for acc and ks :: "string list"
    using that
  proof (induction ks arbitrary: acc)
    case Nil
    then show ?case by (simp add: sorted_sort_id)
  next
    case (Cons k ks)
    have "sort (sort (acc @ [k]) @ ks) = sort (acc @ k # ks)"
      by (rule properties_for_sort) simp_all
    with Cons.IH[of "sort (acc @ [k])"] show ?case by simp
  qed
  from this[of "[]"] show ?thesis by (simp add: collectIPs_def)
qed

lemma foldl_append_keys: "foldl (\<lambda>acc k. acc @ [k]) acc ks = acc @ ks"
  by (induction ks arbitrary: acc) simp_all

lemma sortListenerMap_sort: "sortListenerMap inner = sort (map fst inner)"
  by (simp add: sortListenerMap_def foldl_append_keys)

lemma sortBackendMap_sort: "sortBackendMap inner = sort (map fst inner)"
  by (simp add: sortBackendMap_def foldl_append_keys)

lemma certLoop_emitted:
  "certLoop config previous certs =
     config @ concat (map crtDirective (emittedCerts previous certs))"
  by (induction certs arbitrary: config previous) (simp_all add: crtDirective_def)

lemma emittedCerts_sorted:
  "sorted (previous # certs) \<Longrightarrow>
     distinct (emittedCerts previous certs) \<and> sorted (emittedCerts previous certs) \<and>
     set (emittedCerts previous certs) = set certs - {previous}"
proof (induction certs arbitrary: previous)
  case Nil
  then show ?case by simp
next
  case (Cons c certs)
  show ?case
  proof (cases "previous = c")
    case True
    with Cons.prems have "sorted (previous # certs)" by simp
    from Cons.IH[OF this] True show ?thesis by auto
  next
    case False
    from Cons.prems have s: "sorted (c # certs)" by simp
    from Cons.prems False have "previous < c" by (simp add: less_le)
    with s have "previous \<notin> set (c # certs)" by auto
    with Cons.IH[OF s] False s show ?thesis by auto
  qed
qed

lemma empty_string_least: "sorted certs \<Longrightarrow> sorted ('''' # certs)"
  by simp

text \<open>
  Over the sorted slice the certificate loop emits the non-empty names, each once, in
  ascending order.
\<close>

lemma emittedCerts_sort:
  "emittedCerts '''' (sort certs) = sort (remdups (filter (\<lambda>c. c \<noteq> '''') certs))"
proof -
  have s: "sorted ('''' # sort certs)" by simp
  note e = emittedCerts_sorted[OF s]
  show ?thesis
  proof (rule sorted_distinct_set_unique)
    show "set (emittedCerts '''' (sort certs)) = set (sort (remdups (filter (\<lambda>c. c \<noteq> '''') certs)))"
      using e by auto
  qed (use e in simp_all)
qed

lemma certLoop_sort:
  "certLoop config '''' (sort certs) =
     config @ concat (map crtDirective (sort (remdups (filter (\<lambda>c. c \<noteq> '''') certs))))"
  by (simp add: certLoop_emitted emittedCerts_sort)

lemma certificates_cong:
  assumes "set certs1 = set certs2"
  shows "sort (remdups (filter (\<lambda>c. c \<noteq> '''') certs1))
           = sort (remdups (filter (\<lambda>c. c \<noteq> '''') certs2))"
  by (rule sorted_distinct_set_unique) (simp_all add: assms)

lemma certificates_sort:
  "sort (remdups (filter (\<lambda>c. c \<noteq> '''') (sort certs)))
     = sort (remdups (filter (\<lambda>c. c \<noteq> '''') certs))"
  by (rule certificates_cong) simp

lemma hostLoop_total:
  "set ks \<subseteq> fst ` set hb \<Longrightarrow> \<exists>t. hostLoop port hb ks c = Inr t"
proof (induction ks arbitrary: c)
  case Nil
  then show ?case by simp
next
  case (Cons k ks)
  then obtain b where "map_of hb k = Some b" using map_of_in_keys[of k hb] by auto
  with Cons show ?case by simp
qed

lemma hostLoop_text:
  "hostLoop port hb ks c = Inr t \<Longrightarrow>
     t = c @ concat (map (\<lambda>k. hostRule port k (the (map_of hb k))) ks)"
proof (induction ks arbitrary: c)
  case Nil
  then show ?case by simp
next
  case (Cons k ks)
  from Cons.prems obtain b where b: "map_of hb k = Some b"
    by (auto split: option.splits)
  from Cons.prems b Cons.IH show ?case
    by (fastforce simp: hostRule_def)
qed

lemma hostLoop_sorted_text:
  assumes "distinct (map fst hb)" and "hostLoop port hb (sort (map fst hb)) c = Inr t"
  shows "t = c @ concat (map (\<lambda>(hostname, backend). hostRule port hostname backend) (byKey hb))"
proof -
  have "map (\<lambda>k. hostRule port k (the (map_of hb k))) (sort (map fst hb))
          = map (\<lambda>(hostname, backend). hostRule port hostname backend)
              (map (\<lambda>k. (k, the (map_of hb k))) (sort (map fst hb)))"
    by simp
  with hostLoop_text[OF assms(2)] show ?thesis
    by (simp only: byKey_lookup[OF assms(1)])
qed

lemma frontendStanza_eq:
  "frontendStanza listenIP port l c =
     (if mode l = ''http'' then
        (case hostLoop port (hostnameBackends l) (sortBackendMap (hostnameBackends l))
                (c @ frontendHead listenIP port l) of
           Inl e \<Rightarrow> Inl e
         | Inr config \<Rightarrow> Inr (config @ NL, sortCertificates l))
      else if mode l = ''tcp'' then
        (case map_of (hostnameBackends l) ''_'' of
           None \<Rightarrow> Inl NilPointerDereference
         | Some backend \<Rightarrow>
             Inr (c @ frontendHead listenIP port l @ ''    # Set up default_backend'' @ NL
                    @ ''    default_backend '' @ BackendName backend @ NL @ NL,
                  sortCertificates l))
      else Inr (c @ frontendHead listenIP port l @ NL, sortCertificates l))"
proof (cases "useSSL l")
  case True
  then show ?thesis
    by (simp add: frontendStanza_def frontendHead_def sortCertificates_def certLoop_sort
        certificates_sort sorted_sort_id split: option.splits sum.splits)
next
  case False
  then show ?thesis
    by (simp add: frontendStanza_def frontendHead_def sortCertificates_def
        split: option.splits sum.splits)
qed

lemma frontendStanza_result:
  "frontendStanza listenIP port l c = Inr (t, l') \<Longrightarrow> l' = sortCertificates l"
  by (auto simp: frontendStanza_eq split: if_splits sum.splits option.splits)

lemma frontendStanza_text:
  assumes "distinct (map fst (hostnameBackends l))"
    and "frontendStanza listenIP port l c = Inr (t, l')"
  shows "t = c @ frontendText listenIP port l"
proof (cases "mode l = ''http''")
  case True
  with assms(2) obtain t0 where
    t0: "hostLoop port (hostnameBackends l) (sort (map fst (hostnameBackends l)))
           (c @ frontendHead listenIP port l) = Inr t0" and t: "t = t0 @ NL"
    by (auto simp: frontendStanza_eq sortBackendMap_sort split: sum.splits)
  from hostLoop_sorted_text[OF assms(1) t0] t True show ?thesis
    by (simp add: frontendText_def frontendRules_def)
next
  case False
  with assms(2) show ?thesis
    by (auto simp: frontendStanza_eq frontendText_def frontendRules_def
        split: if_splits option.splits)
qed

lemma sortCertificates_simps [simp]:
  "name (sortCertificates l) = name l"
  "mode (sortCertificates l) = mode l"
  "useSSL (sortCertificates l) = useSSL l"
  "hostnameBackends (sortCertificates l) = hostnameBackends l"
  "set (sslCertificates (sortCertificates l)) = set (sslCertificates l)"
  by (simp_all add: sortCertificates_def)

lemma tcpHasBackend_sortCertificates [simp]:
  "tcpHasBackend (sortCertificates l) = tcpHasBackend l"
  by (simp add: tcpHasBackend_def)

lemma frontendStanza_total:
  assumes "tcpHasBackend l"
  shows "\<exists>t l'. frontendStanza listenIP port l c = Inr (t, l') \<and> tcpHasBackend l'"
proof -
  obtain t where "hostLoop port (hostnameBackends l) (sortBackendMap (hostnameBackends l))
                    (c @ frontendHead listenIP port l) = Inr t"
    using hostLoop_total[of "sortBackendMap (hostnameBackends l)" "hostnameBackends l"]
    by (auto simp: sortBackendMap_sort)
  with assms show ?thesis
    by (auto simp: frontendStanza_eq tcpHasBackend_def)
qed

lemma sameListener_frontendHead:
  "sameListener l1 l2 \<Longrightarrow> frontendHead listenIP port l1 = frontendHead listenIP port l2"
  using certificates_cong[of "sslCertificates l1" "sslCertificates l2"]
  by (simp add: sameListener_def frontendHead_def)

lemma sameListener_sortCertificates:
  "sameListener l1 l2 \<Longrightarrow> sameListener (sortCertificates l1) (sortCertificates l2)"
  by (simp add: sameListener_def)

lemma frontendStanza_rel:
  assumes "sameListener l1 l2"
  shows "rel_sum (=) (rel_prod (=) sameListener)
           (frontendStanza listenIP port l1 c) (frontendStanza listenIP port l2 c)"
proof -
  from assms have hb: "hostnameBackends l1 = hostnameBackends l2" and m: "mode l1 = mode l2"
    by (simp_all add: sameListener_def)
  note h = sameListener_frontendHead[OF assms, of listenIP port]
  note s = sameListener_sortCertificates[OF assms]
  show ?thesis
    using hb m h s by (simp add: frontendStanza_eq split: sum.splits option.splits)
qed

lemma frontendText_sortCertificates [simp]:
  "frontendText listenIP port (sortCertificates l) = frontendText listenIP port l"
proof -
  have "sort (remdups (filter (\<lambda>c. c \<noteq> '''') (sslCertificates (sortCertificates l))))
          = sort (remdups (filter (\<lambda>c. c \<noteq> '''') (sslCertificates l)))"
    by (rule certificates_cong) simp
  then show ?thesis
    by (simp add: frontendText_def frontendHead_def frontendRules_def)
qed

section \<open>The backend stanzas\<close>

lemma serverLoop_text:
  "serverLoop b servers c = c @ concat (map (serverLine b) servers)"
  by (induction servers arbitrary: c) (simp_all add: serverLine_def Let_def)

lemma backendStanza_eq:
  "backendStanza srt m b (c, hp) =
     ((c @ backendText m b (readSlice (sortSlice srt hp (Backends b)) (Backends b)),
       sortSlice srt hp (Backends b)), b)"
  by (simp add: backendStanza_def backendText_def serverLoop_text Let_def)

lemma backendStanza_result [simp]: "snd (backendStanza srt m b s) = b"
  by (cases s) (simp add: backendStanza_eq)

lemma backendStep_eq:
  "backendStep srt (c, hp) (m, b) =
     (c @ backendText m b (readSlice (sortSlice srt hp (Backends b)) (Backends b)),
      sortSlice srt hp (Backends b))"
  by (simp add: backendStep_def backendStanza_eq)

lemma backendStep_heap:
  "snd (foldl (backendStep srt) (c, hp) entries)
     = foldl (sortSlice srt) hp (map (\<lambda>entry. Backends (snd entry)) entries)"
proof (induction entries arbitrary: c hp)
  case Nil
  then show ?case by simp
next
  case (Cons entry entries)
  then show ?case by (cases entry) (simp add: backendStep_eq)
qed

lemma backendStep_appends:
  "\<exists>suffix. fst (foldl (backendStep srt) (c, hp) entries) = c @ suffix"
proof (induction entries arbitrary: c hp)
  case Nil
  then show ?case by simp
next
  case (Cons entry entries)
  obtain m b where e: "entry = (m, b)" by (cases entry)
  from Cons[of "c @ backendText m b (readSlice (sortSlice srt hp (Backends b)) (Backends b))"
      "sortSlice srt hp (Backends b)"]
  show ?case by (auto simp: e backendStep_eq)
qed

text \<open>
  Where the slices of the backends do not get into each other's way, every backend
  prints the servers that its slice held before the pass, sorted.
\<close>

lemma backendStep_text:
  assumes "sortContract srt"
    and "\<forall>e1 \<in> set entries. \<forall>e2 \<in> set entries. sameOrApart (Backends (snd e1)) (Backends (snd e2))"
  shows "fst (foldl (backendStep srt) (c, hp) entries) =
           c @ concat (map (\<lambda>(m, b). backendText m b (srt (readSlice hp (Backends b)))) entries)"
  using assms(2)
proof (induction entries arbitrary: c hp)
  case Nil
  then show ?case by simp
next
  case (Cons entry entries)
  obtain m b where e: "entry = (m, b)" by (cases entry)
  let ?hp = "sortSlice srt hp (Backends b)"
  from Cons.prems have rest: "\<forall>e1 \<in> set entries. \<forall>e2 \<in> set entries.
      sameOrApart (Backends (snd e1)) (Backends (snd e2))" by simp
  have same: "srt (readSlice ?hp (Backends b')) = srt (readSlice hp (Backends b'))"
    if "(m', b') \<in> set entries" for m' b'
  proof (cases "Backends b = Backends b'")
    case True
    then show ?thesis
      by (simp add: readSlice_sortSlice_same[OF assms(1)] sortContract_idem[OF assms(1)])
  next
    case False
    from Cons.prems that have "sameOrApart (Backends b) (Backends b')" by (force simp: e)
    from readSlice_sortSlice_other[OF assms(1) this False] show ?thesis by simp
  qed
  have "map (\<lambda>(m, b). backendText m b (srt (readSlice ?hp (Backends b)))) entries
          = map (\<lambda>(m, b). backendText m b (srt (readSlice hp (Backends b)))) entries"
    by (rule map_cong[OF refl]) (auto simp: same)
  with Cons.IH[OF rest, of "c @ backendText m b (readSlice ?hp (Backends b))" ?hp]
  show ?case
    by (simp add: e backendStep_eq readSlice_sortSlice_same[OF assms(1)])
qed

section \<open>The backends of one listener\<close>

lemma backendStanzas_total: "\<exists>t l'. backendStanzas srt l s = Inr (t, l')"
proof -
  obtain t hb where
    "rangeKeys (\<lambda>name backend st. Inr (backendStanza srt (mode l) backend st))
       (sort (map fst (hostnameBackends l))) (hostnameBackends l) s = Inr (t, hb)"
    using rangeKeys_sorted_total[where P = "\<lambda>_. True" and m = "hostnameBackends l" and c = s
        and body = "\<lambda>name backend st. Inr (backendStanza srt (mode l) backend st)"]
    by (auto simp: prod_eq_iff)
  then show ?thesis by (simp add: backendStanzas_def sortBackendMap_sort)
qed

lemma map_entries_id: "map (\<lambda>(k, v). (k, v)) m = m"
  by (induction m) auto

lemma backendStanzas_result:
  assumes "distinct (map fst (hostnameBackends l))" and "backendStanzas srt l s = Inr (s', l')"
  shows "l' = l
         \<and> s' = foldl (backendStep srt) s
                  (map (\<lambda>(hostname, backend). (mode l, backend)) (byKey (hostnameBackends l)))"
proof -
  let ?body = "\<lambda>name backend st. Inr (backendStanza srt (mode l) backend st)"
  from assms(2) obtain hb where
    r: "rangeKeys ?body (sort (map fst (hostnameBackends l))) (hostnameBackends l) s = Inr (s', hb)"
    and l': "l' = l\<lparr>hostnameBackends := hb\<rparr>"
    by (auto simp: backendStanzas_def sortBackendMap_sort split: sum.splits)
  have "hb = map (\<lambda>(k, b). (k, b)) (hostnameBackends l)"
  proof (rule rangeKeys_sorted_result[OF assms(1) _ r])
    fix k v c t v'
    assume "?body k v c = Inr (t, v')"
    then show "v' = v"
      using backendStanza_result[of srt "mode l" v c] by (simp add: prod_eq_iff)
  qed
  with l' have 1: "l' = l" by (simp add: map_entries_id)
  have "s' = foldl (\<lambda>s (k, v). fst (backendStanza srt (mode l) v s)) s (byKey (hostnameBackends l))"
  proof (rule rangeKeys_sorted_fold[OF assms(1) _ r])
    fix k v s s' v'
    assume "?body k v s = Inr (s', v')"
    then show "s' = fst (backendStanza srt (mode l) v s)" by (auto simp: prod_eq_iff)
  qed
  also have "\<dots> = foldl (backendStep srt) s
                   (map (\<lambda>(hostname, backend). (mode l, backend)) (byKey (hostnameBackends l)))"
    by (simp add: foldl_map backendStep_def case_prod_unfold)
  finally show ?thesis using 1 by simp
qed

lemma backendStanzas_rel:
  assumes "sameListener l1 l2"
  shows "rel_sum (=) (rel_prod (=) sameListener)
           (backendStanzas srt l1 s) (backendStanzas srt l2 s)"
proof -
  from assms have hb: "hostnameBackends l1 = hostnameBackends l2" and m: "mode l1 = mode l2"
    by (simp_all add: sameListener_def)
  show ?thesis
    using assms unfolding backendStanzas_def hb m
    by (auto simp: sameListener_def split: sum.splits)
qed

section \<open>The two passes\<close>

lemma buildFrontEnds_total:
  assumes "\<forall>(ip, inner) \<in> set m. \<forall>(port, l) \<in> set inner. tcpHasBackend l"
  shows "\<exists>t m'. buildFrontEnds (collectIPs m) m c = Inr (t, m') \<and> map fst m' = map fst m"
proof -
  let ?P = "\<lambda>inner. \<forall>(port, l) \<in> set inner. tcpHasBackend l"
  have "\<exists>t m'. rangeKeys (\<lambda>listenIP innerMap.
            rangeKeys (frontendStanza listenIP) (sortListenerMap innerMap) innerMap)
          (sort (map fst m)) m c = Inr (t, m') \<and> (\<forall>(k, v) \<in> set m'. ?P v)
            \<and> map fst m' = map fst m"
  proof (rule rangeKeys_sorted_total[where P = ?P])
    show "\<forall>(k, v) \<in> set m. ?P v" using assms by auto
  next
    fix k :: string and v :: "(16 word, haproxyListener) gomap" and c :: string
    assume "?P v"
    then show "\<exists>t v'. rangeKeys (frontendStanza k) (sortListenerMap v) v c = Inr (t, v') \<and> ?P v'"
      unfolding sortListenerMap_sort
      using rangeKeys_sorted_total[where P = tcpHasBackend and m = v and c = c
          and body = "frontendStanza k"] frontendStanza_total
      by blast
  qed
  then show ?thesis by (auto simp: buildFrontEnds_def collectIPs_sort)
qed

lemma buildBackEnds_total: "\<exists>t m'. buildBackEnds srt (sort (map fst m)) m s = Inr (t, m')"
proof -
  have "\<exists>t m'. rangeKeys (\<lambda>listenIP innerMap.
            rangeKeys (\<lambda>port. backendStanzas srt) (sortListenerMap innerMap) innerMap)
          (sort (map fst m)) m s = Inr (t, m') \<and> (\<forall>(k, v) \<in> set m'. True)
            \<and> map fst m' = map fst m"
  proof (rule rangeKeys_sorted_total[where P = "\<lambda>_. True"])
    show "\<forall>(k, v) \<in> set m. True" by auto
  next
    fix k :: string and v :: "(16 word, haproxyListener) gomap" and c :: "string \<times> heap"
    have "\<exists>t v'. rangeKeys (\<lambda>port. backendStanzas srt) (sort (map fst v)) v c = Inr (t, v')
            \<and> (\<forall>(k, w) \<in> set v'. True) \<and> map fst v' = map fst v"
      by (rule rangeKeys_sorted_total[where P = "\<lambda>_. True"])
         (use backendStanzas_total in auto)
    then show "\<exists>t v'. rangeKeys (\<lambda>port. backendStanzas srt) (sortListenerMap v) v c = Inr (t, v')
                 \<and> True"
      by (auto simp: sortListenerMap_sort)
  qed
  then show ?thesis by (auto simp: buildBackEnds_def)
qed

lemma buildFrontEnds_result:
  assumes "distinct (map fst m)" and "\<forall>(ip, inner) \<in> set m. distinct (map fst inner)"
    and "buildFrontEnds (collectIPs m) m c = Inr (t, m')"
  shows "m' = map (\<lambda>(ip, inner). (ip, map (\<lambda>(port, l). (port, sortCertificates l)) inner)) m"
proof (rule rangeKeys_sorted_result[OF assms(1)])
  show "rangeKeys (\<lambda>listenIP innerMap.
            rangeKeys (frontendStanza listenIP) (sortListenerMap innerMap) innerMap)
          (sort (map fst m)) m c = Inr (t, m')"
    using assms(3) by (simp add: buildFrontEnds_def collectIPs_sort)
next
  fix k v c t v'
  assume a: "(k, v) \<in> set m"
    "rangeKeys (frontendStanza k) (sortListenerMap v) v c = Inr (t, v')"
  from a(1) assms(2) have d: "distinct (map fst v)" by auto
  show "v' = map (\<lambda>(port, l). (port, sortCertificates l)) v"
    by (rule rangeKeys_sorted_result[OF d _ a(2)[unfolded sortListenerMap_sort]])
       (rule frontendStanza_result)
qed

lemma buildFrontEnds_text:
  assumes "distinct (map fst m)"
    and "\<forall>(ip, inner) \<in> set m. distinct (map fst inner) \<and>
           (\<forall>(port, l) \<in> set inner. distinct (map fst (hostnameBackends l)))"
    and "buildFrontEnds (collectIPs m) m c = Inr (t, m')"
  shows "t = c @ concat (map (\<lambda>(listenIP, inner).
               concat (map (\<lambda>(port, l). frontendText listenIP port l) (byKey inner))) (byKey m))"
proof (rule rangeKeys_sorted_text[OF assms(1)])
  show "rangeKeys (\<lambda>listenIP innerMap.
            rangeKeys (frontendStanza listenIP) (sortListenerMap innerMap) innerMap)
          (sort (map fst m)) m c = Inr (t, m')"
    using assms(3) by (simp add: buildFrontEnds_def collectIPs_sort)
next
  fix k v c t v'
  assume a: "(k, v) \<in> set m"
    "rangeKeys (frontendStanza k) (sortListenerMap v) v c = Inr (t, v')"
  from a(1) assms(2) have d: "distinct (map fst v)"
    and hb: "\<forall>(port, l) \<in> set v. distinct (map fst (hostnameBackends l))" by auto
  show "t = c @ concat (map (\<lambda>(port, l). frontendText k port l) (byKey v))"
  proof (rule rangeKeys_sorted_text[OF d _ a(2)[unfolded sortListenerMap_sort]])
    fix port l c t l'
    assume "(port, l) \<in> set v" "frontendStanza k port l c = Inr (t, l')"
    with hb show "t = c @ frontendText k port l" by (auto intro: frontendStanza_text)
  qed
qed

lemma foldl_concat_map:
  "foldl (\<lambda>s (k, v). foldl f s (g k v)) s xs = foldl f s (concat (map (\<lambda>(k, v). g k v) xs))"
  by (induction xs arbitrary: s) (simp_all add: case_prod_unfold)

lemma innerBackEnds_result:
  assumes "distinct (map fst inner)"
    and "\<forall>(port, l) \<in> set inner. distinct (map fst (hostnameBackends l))"
    and "rangeKeys (\<lambda>port. backendStanzas srt) (sortListenerMap inner) inner s = Inr (s', inner')"
  shows "inner' = inner
         \<and> s' = foldl (backendStep srt) s
                  (concat (map (\<lambda>(port, l). map (\<lambda>(hostname, backend). (mode l, backend))
                     (byKey (hostnameBackends l))) (byKey inner)))"
proof -
  note r = assms(3)[unfolded sortListenerMap_sort]
  have "inner' = map (\<lambda>(port, l). (port, l)) inner"
  proof (rule rangeKeys_sorted_result[OF assms(1) _ r])
    fix port l c t l'
    assume "(port, l) \<in> set inner" "backendStanzas srt l c = Inr (t, l')"
    with assms(2) show "l' = l" using backendStanzas_result[of l srt c t l'] by auto
  qed
  then have 1: "inner' = inner" by (simp add: map_entries_id)
  have "s' = foldl (\<lambda>s (port, l). foldl (backendStep srt) s
                 (map (\<lambda>(hostname, backend). (mode l, backend)) (byKey (hostnameBackends l))))
               s (byKey inner)"
  proof (rule rangeKeys_sorted_fold[OF assms(1) _ r])
    fix port l s s' l'
    assume "(port, l) \<in> set inner" "backendStanzas srt l s = Inr (s', l')"
    with assms(2) show "s' = foldl (backendStep srt) s
        (map (\<lambda>(hostname, backend). (mode l, backend)) (byKey (hostnameBackends l)))"
      using backendStanzas_result[of l srt s s' l'] by auto
  qed
  with 1 show ?thesis by (simp add: foldl_concat_map)
qed

lemma buildBackEnds_result:
  assumes "distinct (map fst m)"
    and "\<forall>(ip, inner) \<in> set m. distinct (map fst inner) \<and>
           (\<forall>(port, l) \<in> set inner. distinct (map fst (hostnameBackends l)))"
    and "buildBackEnds srt (sort (map fst m)) m s = Inr (s', m')"
  shows "m' = m
         \<and> s' = foldl (backendStep srt) s
                  (concat (map (\<lambda>(listenIP, inner).
                     concat (map (\<lambda>(port, l). map (\<lambda>(hostname, backend). (mode l, backend))
                       (byKey (hostnameBackends l))) (byKey inner))) (byKey m)))"
proof -
  let ?body = "\<lambda>listenIP innerMap.
      rangeKeys (\<lambda>port. backendStanzas srt) (sortListenerMap innerMap) innerMap"
  from assms(3) have r: "rangeKeys ?body (sort (map fst m)) m s = Inr (s', m')"
    by (simp add: buildBackEnds_def)
  have inner: "v' = v \<and> s' = foldl (backendStep srt) s
        (concat (map (\<lambda>(port, l). map (\<lambda>(hostname, backend). (mode l, backend))
           (byKey (hostnameBackends l))) (byKey v)))"
    if "(k, v) \<in> set m" "?body k v s = Inr (s', v')" for k v s s' v'
    using that assms(2) by (intro innerBackEnds_result) auto
  have "m' = map (\<lambda>(ip, inner). (ip, inner)) m"
    by (rule rangeKeys_sorted_result[OF assms(1) _ r]) (use inner in blast)
  then have 1: "m' = m" by (simp add: map_entries_id)
  have "s' = foldl (\<lambda>s (ip, inner). foldl (backendStep srt) s
                 (concat (map (\<lambda>(port, l). map (\<lambda>(hostname, backend). (mode l, backend))
                    (byKey (hostnameBackends l))) (byKey inner))))
               s (byKey m)"
    by (rule rangeKeys_sorted_fold[OF assms(1) _ r]) (use inner in blast)
  with 1 show ?thesis by (simp add: foldl_concat_map)
qed

lemma buildFrontEnds_rel:
  assumes "list_all2 (rel_prod (=) (list_all2 (rel_prod (=) sameListener))) m1 m2"
  shows "rel_sum (=) (rel_prod (=) (list_all2 (rel_prod (=) (list_all2 (rel_prod (=) sameListener)))))
           (buildFrontEnds ks m1 c) (buildFrontEnds ks m2 c)"
  unfolding buildFrontEnds_def
proof (rule rangeKeys_rel[OF assms])
  fix k :: string and v1 v2 :: "(16 word, haproxyListener) gomap" and c :: string
  assume r: "list_all2 (rel_prod (=) sameListener) v1 v2"
  have "sortListenerMap v1 = sortListenerMap v2"
    using rel_keys[OF r] by (simp add: sortListenerMap_sort)
  then show "rel_sum (=) (rel_prod (=) (list_all2 (rel_prod (=) sameListener)))
          (rangeKeys (frontendStanza k) (sortListenerMap v1) v1 c)
          (rangeKeys (frontendStanza k) (sortListenerMap v2) v2 c)"
    using rangeKeys_rel[OF r, of "frontendStanza k" "frontendStanza k"] frontendStanza_rel
    by simp
qed

lemma buildBackEnds_rel:
  assumes "list_all2 (rel_prod (=) (list_all2 (rel_prod (=) sameListener))) m1 m2"
  shows "rel_sum (=) (rel_prod (=) (list_all2 (rel_prod (=) (list_all2 (rel_prod (=) sameListener)))))
           (buildBackEnds srt ks m1 s) (buildBackEnds srt ks m2 s)"
  unfolding buildBackEnds_def
proof (rule rangeKeys_rel[OF assms])
  fix k :: string and v1 v2 :: "(16 word, haproxyListener) gomap" and c :: "string \<times> heap"
  assume r: "list_all2 (rel_prod (=) sameListener) v1 v2"
  have "sortListenerMap v1 = sortListenerMap v2"
    using rel_keys[OF r] by (simp add: sortListenerMap_sort)
  then show "rel_sum (=) (rel_prod (=) (list_all2 (rel_prod (=) sameListener)))
          (rangeKeys (\<lambda>port. backendStanzas srt) (sortListenerMap v1) v1 c)
          (rangeKeys (\<lambda>port. backendStanzas srt) (sortListenerMap v2) v2 c)"
    using rangeKeys_rel[OF r, of "\<lambda>port. backendStanzas srt" "\<lambda>port. backendStanzas srt"]
      backendStanzas_rel
    by simp
qed

section \<open>Render as a whole\<close>

lemma Render_passes:
  "Render srt hp h = Inr (out, h', hp') \<longleftrightarrow>
     (\<exists>t1 m1 m2.
        buildFrontEnds (collectIPs (listenIPs (desiredConfig h))) (listenIPs (desiredConfig h)) ''''
          = Inr (t1, m1)
        \<and> buildBackEnds srt (collectIPs (listenIPs (desiredConfig h))) m1 (t1, hp)
          = Inr ((out, hp'), m2)
        \<and> h' = h\<lparr>desiredConfig := (desiredConfig h)\<lparr>listenIPs := m2\<rparr>\<rparr>)"
  by (auto simp: Render_def Let_def split: sum.splits)

lemma Render_total:
  assumes "tcpListenersHaveBackend h"
  shows "\<exists>out h' hp'. Render srt hp h = Inr (out, h', hp')"
proof -
  let ?m = "listenIPs (desiredConfig h)"
  from assms have "\<forall>(ip, inner) \<in> set ?m. \<forall>(port, l) \<in> set inner. tcpHasBackend l"
    by (auto simp: tcpListenersHaveBackend_def list_all_iff)
  from buildFrontEnds_total[OF this, of "''''"] obtain t1 m1 where
    1: "buildFrontEnds (collectIPs ?m) ?m '''' = Inr (t1, m1)" and k: "map fst m1 = map fst ?m"
    by blast
  from buildBackEnds_total[of srt m1 "(t1, hp)"] obtain s2 m2 where
    "buildBackEnds srt (sort (map fst m1)) m1 (t1, hp) = Inr (s2, m2)" by blast
  then have 2: "buildBackEnds srt (collectIPs ?m) m1 (t1, hp) = Inr ((fst s2, snd s2), m2)"
    using k by (simp add: collectIPs_sort)
  from 1 2 show ?thesis unfolding Render_passes by blast
qed

text \<open>Whether \<open>Render\<close> returns depends on the store only.\<close>

lemma Render_returns:
  assumes "Render srt hp h = Inr r"
  shows "\<exists>r'. Render srt' hp' h = Inr r'"
proof -
  let ?m = "listenIPs (desiredConfig h)"
  obtain out h' hp1 where r: "r = (out, h', hp1)" by (cases r)
  from assms[unfolded r Render_passes] obtain t1 m1 where
    1: "buildFrontEnds (collectIPs ?m) ?m '''' = Inr (t1, m1)"
    by blast
  then have k: "map fst m1 = map fst ?m"
    unfolding buildFrontEnds_def by (rule rangeKeys_keys)
  from buildBackEnds_total[of srt' m1 "(t1, hp')"] obtain s2 m2 where
    "buildBackEnds srt' (sort (map fst m1)) m1 (t1, hp') = Inr (s2, m2)" by blast
  then have 2: "buildBackEnds srt' (collectIPs ?m) m1 (t1, hp') = Inr ((fst s2, snd s2), m2)"
    using k by (simp add: collectIPs_sort)
  from 1 2 have "Render srt' hp' h
      = Inr (fst s2, h\<lparr>desiredConfig := (desiredConfig h)\<lparr>listenIPs := m2\<rparr>\<rparr>, snd s2)"
    unfolding Render_passes by blast
  then show ?thesis by blast
qed

lemma wf_sortedStore: "wf_store h \<Longrightarrow> wf_store (sortedStore h)"
  by (auto simp: wf_store_def sortedStore_def list_all_iff case_prod_unfold comp_def)

lemma byKey_sortCertificates:
  "byKey (map (\<lambda>p. (fst p, sortCertificates (snd p))) inner)
     = map (\<lambda>p. (fst p, sortCertificates (snd p))) (byKey inner)"
  using byKey_map_values[where g = "\<lambda>port. sortCertificates" and m = inner]
  by (simp add: case_prod_unfold)

lemma byKey_sortedStore:
  "byKey (map (\<lambda>p. (fst p, map (\<lambda>p. (fst p, sortCertificates (snd p))) (snd p))) m)
     = map (\<lambda>p. (fst p, map (\<lambda>p. (fst p, sortCertificates (snd p))) (snd p))) (byKey m)"
  using byKey_map_values[where m = m
      and g = "\<lambda>ip inner. map (\<lambda>p. (fst p, sortCertificates (snd p))) inner"]
  by (simp add: case_prod_unfold)

lemma frontendsText_sortedStore [simp]: "frontendsText (sortedStore h) = frontendsText h"
  unfolding frontendsText_def sortedStore_def
  by (simp add: byKey_sortedStore byKey_sortCertificates comp_def case_prod_unfold)

lemma backendSeq_sortedStore [simp]: "backendSeq (sortedStore h) = backendSeq h"
  unfolding backendSeq_def sortedStore_def
  by (simp add: byKey_sortedStore byKey_sortCertificates comp_def case_prod_unfold)

lemma storedBackends_sortedStore [simp]: "storedBackends (sortedStore h) = storedBackends h"
  by (simp add: storedBackends_def sortedStore_def comp_def case_prod_unfold)

lemma sortCertificates_idem [simp]: "sortCertificates (sortCertificates l) = sortCertificates l"
  by (simp add: sortCertificates_def sorted_sort_id)

lemma sortedStore_idem [simp]: "sortedStore (sortedStore h) = sortedStore h"
  by (simp add: sortedStore_def case_prod_unfold comp_def)

text \<open>
  What \<open>Render\<close> does, on every store and every heap: the store it leaves has the
  certificates sorted, the text begins with the frontend stanzas, and the second pass
  is one loop of \<open>backendStep\<close> over the backends in their order.
\<close>

lemma Render_result:
  assumes "wf_store h" and "Render srt hp h = Inr (out, h', hp')"
  shows "h' = sortedStore h
         \<and> (out, hp') = foldl (backendStep srt) (frontendsText h, hp) (backendSeq h)"
proof -
  let ?m = "listenIPs (desiredConfig h)"
  let ?f = "\<lambda>(ip, inner). (ip, map (\<lambda>(port, l). (port, sortCertificates l)) inner)"
  from assms(1) have d: "distinct (map fst ?m)"
    and di: "\<forall>(ip, inner) \<in> set ?m. distinct (map fst inner)"
    and dh: "\<forall>(ip, inner) \<in> set ?m. distinct (map fst inner) \<and>
               (\<forall>(port, l) \<in> set inner. distinct (map fst (hostnameBackends l)))"
    by (auto simp: wf_store_def list_all_iff)
  from assms(2) obtain t1 m1 m2 where
    1: "buildFrontEnds (collectIPs ?m) ?m '''' = Inr (t1, m1)"
    and 2: "buildBackEnds srt (collectIPs ?m) m1 (t1, hp) = Inr ((out, hp'), m2)"
    and h': "h' = h\<lparr>desiredConfig := (desiredConfig h)\<lparr>listenIPs := m2\<rparr>\<rparr>"
    unfolding Render_passes by blast
  have m1: "m1 = map ?f ?m" by (rule buildFrontEnds_result[OF d di 1])
  then have s1: "m1 = listenIPs (desiredConfig (sortedStore h))" by (simp add: sortedStore_def)
  have t1: "t1 = frontendsText h"
    using buildFrontEnds_text[OF d dh 1] by (simp add: frontendsText_def)
  have k: "map fst m1 = map fst ?m" by (simp add: m1 case_prod_unfold)
  from wf_sortedStore[OF assms(1)] have d1: "distinct (map fst m1)"
    and dh1: "\<forall>(ip, inner) \<in> set m1. distinct (map fst inner) \<and>
               (\<forall>(port, l) \<in> set inner. distinct (map fst (hostnameBackends l)))"
    unfolding s1 by (auto simp: wf_store_def list_all_iff)
  from 2 have b2: "buildBackEnds srt (sort (map fst m1)) m1 (t1, hp) = Inr ((out, hp'), m2)"
    using k by (simp add: collectIPs_sort)
  from buildBackEnds_result[OF d1 dh1 b2] have m2: "m2 = m1"
    and s: "(out, hp') = foldl (backendStep srt) (t1, hp) (backendSeq (sortedStore h))"
    by (simp_all add: backendSeq_def s1)
  from h' m2 m1 have "h' = sortedStore h" by (simp add: sortedStore_def)
  with s t1 show ?thesis by simp
qed

lemma Render_rel:
  assumes "sameStore h1 h2"
  shows "rel_sum (=) (rel_prod (=) (rel_prod sameStore (=))) (Render srt hp h1) (Render srt hp h2)"
proof -
  let ?R = "list_all2 (rel_prod (=) (list_all2 (rel_prod (=) sameListener)))"
  let ?m1 = "listenIPs (desiredConfig h1)" and ?m2 = "listenIPs (desiredConfig h2)"
  from assms have r: "?R ?m1 ?m2" by (simp add: sameStore_def)
  have k: "collectIPs ?m1 = collectIPs ?m2" using rel_keys[OF r] by (simp add: collectIPs_sort)
  note f = buildFrontEnds_rel[OF r, of "collectIPs ?m1" "''''"]
  show ?thesis
  proof (cases "buildFrontEnds (collectIPs ?m1) ?m1 ''''")
    case (Inl e)
    with f have "buildFrontEnds (collectIPs ?m1) ?m2 '''' = Inl e"
      by (cases "buildFrontEnds (collectIPs ?m1) ?m2 ''''") simp_all
    with Inl k show ?thesis by (simp add: Render_def Let_def)
  next
    case (Inr p1)
    obtain t1 a1 where p1: "p1 = (t1, a1)" by (cases p1)
    from f Inr p1 obtain a2 where
      f2: "buildFrontEnds (collectIPs ?m1) ?m2 '''' = Inr (t1, a2)" and ra: "?R a1 a2"
      by (cases "buildFrontEnds (collectIPs ?m1) ?m2 ''''") auto
    note b = buildBackEnds_rel[OF ra, of srt "collectIPs ?m1" "(t1, hp)"]
    show ?thesis
    proof (cases "buildBackEnds srt (collectIPs ?m1) a1 (t1, hp)")
      case (Inl e)
      with b have "buildBackEnds srt (collectIPs ?m1) a2 (t1, hp) = Inl e"
        by (cases "buildBackEnds srt (collectIPs ?m1) a2 (t1, hp)") simp_all
      with Inl Inr p1 f2 k show ?thesis by (simp add: Render_def Let_def)
    next
      case Inr2: (Inr q1)
      obtain t2 hp2 c1 where q1: "q1 = ((t2, hp2), c1)" by (cases q1) auto
      from b Inr2 q1 obtain c2 where
        b2: "buildBackEnds srt (collectIPs ?m1) a2 (t1, hp) = Inr ((t2, hp2), c2)" and rc: "?R c1 c2"
        by (cases "buildBackEnds srt (collectIPs ?m1) a2 (t1, hp)") auto
      from Inr p1 f2 Inr2 q1 b2 rc k show ?thesis
        by (simp add: Render_def Let_def sameStore_def)
    qed
  qed
qed

lemma sameStore_RenderText: "sameStore h1 h2 \<Longrightarrow> RenderText srt hp h1 = RenderText srt hp h2"
  using Render_rel[of h1 h2 srt hp]
  by (cases "Render srt hp h1"; cases "Render srt hp h2") (auto simp: RenderText_def)

lemma sameListener_refl [simp]: "sameListener l l"
  by (simp add: sameListener_def)

lemma sameStore_sortedStore: "sameStore h (sortedStore h)"
  by (simp add: sameStore_def sortedStore_def list_all2_map2 list_all2_same case_prod_unfold
      sameListener_def rel_prod_sel)

section \<open>The order of the entries of a map\<close>

lemma eqMap_keys:
  fixes m1 m2 :: "('k::linorder, 'v) gomap"
  assumes "eqMap R m1 m2"
  shows "sort (map fst m1) = sort (map fst m2)"
proof -
  have "k \<in> set (map fst m1) \<longleftrightarrow> k \<in> set (map fst m2)" for k
  proof -
    from assms have "rel_option R (map_of m1 k) (map_of m2 k)" by (simp add: eqMap_def)
    then have "map_of m1 k = None \<longleftrightarrow> map_of m2 k = None"
      by (cases rule: option.rel_cases) simp_all
    then show ?thesis by (simp add: map_of_eq_None_iff)
  qed
  then have "set (map fst m1) = set (map fst m2)" by blast
  moreover from assms have "distinct (map fst m1)" "distinct (map fst m2)"
    by (simp_all add: eqMap_def)
  ultimately have "mset (map fst m1) = mset (map fst m2)"
    using set_eq_iff_mset_eq_distinct[of "map fst m1" "map fst m2"] by blast
  then show ?thesis by - (rule properties_for_sort, simp_all)
qed

lemma eqMap_lookup: "eqMap R m1 m2 \<Longrightarrow> rel_option R (map_of m1 k) (map_of m2 k)"
  by (simp add: eqMap_def)

lemma eqMap_update:
  "eqMap R m1 m2 \<Longrightarrow> R v1 v2 \<Longrightarrow> eqMap R (AList.update k v1 m1) (AList.update k v2 m2)"
  by (simp add: eqMap_def distinct_update update_conv')

lemma rangeKeys_eqMap:
  assumes "eqMap R m1 m2"
    and "\<And>k v1 v2 c. R v1 v2 \<Longrightarrow>
           rel_sum (=) (rel_prod (=) R) (body1 k v1 c) (body2 k v2 c)"
  shows "rel_sum (=) (rel_prod (=) (eqMap R))
           (rangeKeys body1 ks m1 c) (rangeKeys body2 ks m2 c)"
  using assms(1)
proof (induction ks arbitrary: m1 m2 c)
  case Nil
  then show ?case by simp
next
  case (Cons k ks)
  from eqMap_lookup[OF Cons.prems, of k]
  show ?case
  proof (cases rule: option.rel_cases)
    case None
    then show ?thesis by simp
  next
    case (Some v1 v2)
    note b = assms(2)[OF Some(3), of k c]
    show ?thesis
    proof (cases "body1 k v1 c")
      case (Inl e1)
      with b Some show ?thesis by (cases "body2 k v2 c") simp_all
    next
      case (Inr r1)
      with b obtain r2 where Inr2: "body2 k v2 c = Inr r2" and r: "rel_prod (=) R r1 r2"
        by (cases "body2 k v2 c") simp_all
      obtain t1 w1 where r1: "r1 = (t1, w1)" by (cases r1)
      obtain t2 w2 where r2: "r2 = (t2, w2)" by (cases r2)
      from r r1 r2 have eq: "t1 = t2" "R w1 w2" by simp_all
      from Cons.IH[OF eqMap_update[OF Cons.prems eq(2)], of k t1] Some Inr Inr2 r1 r2 eq(1)
      show ?thesis by simp
    qed
  qed
qed

lemma hostLoop_perm:
  assumes "eqMap (=) hb1 hb2"
  shows "hostLoop port hb1 ks c = hostLoop port hb2 ks c"
proof -
  have "map_of hb1 k = map_of hb2 k" for k
    using eqMap_lookup[OF assms, of k] by (simp add: option.rel_eq)
  then show ?thesis by (induction ks arbitrary: c) (simp_all split: option.splits)
qed

lemma frontendStanza_perm:
  assumes "permListener l1 l2"
  shows "rel_sum (=) (rel_prod (=) permListener)
           (frontendStanza listenIP port l1 c) (frontendStanza listenIP port l2 c)"
proof -
  from assms have hb: "eqMap (=) (hostnameBackends l1) (hostnameBackends l2)"
    and m: "mode l1 = mode l2"
    by (simp_all add: permListener_def)
  have keys: "sortBackendMap (hostnameBackends l1) = sortBackendMap (hostnameBackends l2)"
    using eqMap_keys[OF hb] by (simp add: sortBackendMap_sort)
  have h: "frontendHead listenIP port l1 = frontendHead listenIP port l2"
    using assms by (simp add: permListener_def frontendHead_def)
  have s: "permListener (sortCertificates l1) (sortCertificates l2)"
    using assms by (simp add: permListener_def sortCertificates_def)
  have u: "map_of (hostnameBackends l1) ''_'' = map_of (hostnameBackends l2) ''_''"
    using eqMap_lookup[OF hb, of "''_''"] by (simp add: option.rel_eq)
  show ?thesis
    using m h keys hostLoop_perm[OF hb] s u
    by (simp add: frontendStanza_eq split: sum.splits option.splits)
qed

lemma backendStanzas_perm:
  assumes "permListener l1 l2"
  shows "rel_sum (=) (rel_prod (=) permListener)
           (backendStanzas srt l1 c) (backendStanzas srt l2 c)"
proof -
  from assms have hb: "eqMap (=) (hostnameBackends l1) (hostnameBackends l2)"
    and m: "mode l1 = mode l2"
    by (simp_all add: permListener_def)
  let ?body = "\<lambda>l name backend st. Inr (backendStanza srt (mode l) backend st)"
  have keys: "sortBackendMap (hostnameBackends l1) = sortBackendMap (hostnameBackends l2)"
    using eqMap_keys[OF hb] by (simp add: sortBackendMap_sort)
  have "rel_sum (=) (rel_prod (=) (eqMap (=)))
          (rangeKeys (?body l1) (sortBackendMap (hostnameBackends l1)) (hostnameBackends l1) c)
          (rangeKeys (?body l2) (sortBackendMap (hostnameBackends l1)) (hostnameBackends l2) c)"
    by (rule rangeKeys_eqMap[OF hb]) (simp add: m rel_prod_sel)
  then show ?thesis
    using assms unfolding backendStanzas_def keys[symmetric]
    by (auto simp: permListener_def elim!: rel_sum.cases)
qed

lemma buildFrontEnds_perm:
  assumes "eqMap (eqMap permListener) m1 m2"
  shows "rel_sum (=) (rel_prod (=) (eqMap (eqMap permListener)))
           (buildFrontEnds ks m1 c) (buildFrontEnds ks m2 c)"
  unfolding buildFrontEnds_def
proof (rule rangeKeys_eqMap[OF assms])
  fix k :: string and v1 v2 :: "(16 word, haproxyListener) gomap" and c :: string
  assume r: "eqMap permListener v1 v2"
  have "sortListenerMap v1 = sortListenerMap v2"
    using eqMap_keys[OF r] by (simp add: sortListenerMap_sort)
  then show "rel_sum (=) (rel_prod (=) (eqMap permListener))
          (rangeKeys (frontendStanza k) (sortListenerMap v1) v1 c)
          (rangeKeys (frontendStanza k) (sortListenerMap v2) v2 c)"
    using rangeKeys_eqMap[OF r, of "frontendStanza k" "frontendStanza k"] frontendStanza_perm
    by simp
qed

lemma buildBackEnds_perm:
  assumes "eqMap (eqMap permListener) m1 m2"
  shows "rel_sum (=) (rel_prod (=) (eqMap (eqMap permListener)))
           (buildBackEnds srt ks m1 c) (buildBackEnds srt ks m2 c)"
  unfolding buildBackEnds_def
proof (rule rangeKeys_eqMap[OF assms])
  fix k :: string and v1 v2 :: "(16 word, haproxyListener) gomap" and c :: "string \<times> heap"
  assume r: "eqMap permListener v1 v2"
  have "sortListenerMap v1 = sortListenerMap v2"
    using eqMap_keys[OF r] by (simp add: sortListenerMap_sort)
  then show "rel_sum (=) (rel_prod (=) (eqMap permListener))
          (rangeKeys (\<lambda>port. backendStanzas srt) (sortListenerMap v1) v1 c)
          (rangeKeys (\<lambda>port. backendStanzas srt) (sortListenerMap v2) v2 c)"
    using rangeKeys_eqMap[OF r, of "\<lambda>port. backendStanzas srt" "\<lambda>port. backendStanzas srt"]
      backendStanzas_perm
    by simp
qed

lemma Render_perm:
  assumes "permStore h1 h2"
  shows "rel_sum (=) (rel_prod (=) (rel_prod permStore (=))) (Render srt hp h1) (Render srt hp h2)"
proof -
  let ?R = "eqMap (eqMap permListener)"
  let ?m1 = "listenIPs (desiredConfig h1)" and ?m2 = "listenIPs (desiredConfig h2)"
  from assms have r: "?R ?m1 ?m2" by (simp add: permStore_def)
  have k: "collectIPs ?m1 = collectIPs ?m2" using eqMap_keys[OF r] by (simp add: collectIPs_sort)
  note f = buildFrontEnds_perm[OF r, of "collectIPs ?m1" "''''"]
  show ?thesis
  proof (cases "buildFrontEnds (collectIPs ?m1) ?m1 ''''")
    case (Inl e)
    with f have "buildFrontEnds (collectIPs ?m1) ?m2 '''' = Inl e"
      by (cases "buildFrontEnds (collectIPs ?m1) ?m2 ''''") simp_all
    with Inl k show ?thesis by (simp add: Render_def Let_def)
  next
    case (Inr p1)
    obtain t1 a1 where p1: "p1 = (t1, a1)" by (cases p1)
    from f Inr p1 obtain a2 where
      f2: "buildFrontEnds (collectIPs ?m1) ?m2 '''' = Inr (t1, a2)" and ra: "?R a1 a2"
      by (cases "buildFrontEnds (collectIPs ?m1) ?m2 ''''") auto
    note b = buildBackEnds_perm[OF ra, of srt "collectIPs ?m1" "(t1, hp)"]
    show ?thesis
    proof (cases "buildBackEnds srt (collectIPs ?m1) a1 (t1, hp)")
      case (Inl e)
      with b have "buildBackEnds srt (collectIPs ?m1) a2 (t1, hp) = Inl e"
        by (cases "buildBackEnds srt (collectIPs ?m1) a2 (t1, hp)") simp_all
      with Inl Inr p1 f2 k show ?thesis by (simp add: Render_def Let_def)
    next
      case Inr2: (Inr q1)
      obtain t2 hp2 c1 where q1: "q1 = ((t2, hp2), c1)" by (cases q1) auto
      from b Inr2 q1 obtain c2 where
        b2: "buildBackEnds srt (collectIPs ?m1) a2 (t1, hp) = Inr ((t2, hp2), c2)" and rc: "?R c1 c2"
        by (cases "buildBackEnds srt (collectIPs ?m1) a2 (t1, hp)") auto
      from Inr p1 f2 Inr2 q1 b2 rc k show ?thesis
        by (simp add: Render_def Let_def permStore_def)
    qed
  qed
qed

lemma permStore_wf: "permStore h1 h2 \<Longrightarrow> wf_store h1"
proof -
  assume a: "permStore h1 h2"
  let ?m1 = "listenIPs (desiredConfig h1)" and ?m2 = "listenIPs (desiredConfig h2)"
  from a have d: "distinct (map fst ?m1)" by (simp add: permStore_def eqMap_def)
  have inner: "distinct (map fst inner) \<and>
      (\<forall>(port, l) \<in> set inner. distinct (map fst (hostnameBackends l)))"
    if "(ip, inner) \<in> set ?m1" for ip inner
  proof -
    from that d have "map_of ?m1 ip = Some inner" by simp
    with a obtain inner2 where i: "eqMap permListener inner inner2"
      using eqMap_lookup[of "eqMap permListener" ?m1 ?m2 ip]
      by (auto simp: permStore_def elim: option.rel_cases)
    then have di: "distinct (map fst inner)" by (simp add: eqMap_def)
    have "distinct (map fst (hostnameBackends l))" if "(port, l) \<in> set inner" for port l
    proof -
      from that di have "map_of inner port = Some l" by simp
      with i obtain l2 where "permListener l l2"
        using eqMap_lookup[of permListener inner inner2 port]
        by (auto elim: option.rel_cases)
      then show ?thesis by (simp add: permListener_def eqMap_def)
    qed
    with di show ?thesis by auto
  qed
  with d show ?thesis by (fastforce simp: wf_store_def list_all_iff)
qed

section \<open>Render on backends that own their servers\<close>

lemma in_backendSeq:
  "e \<in> set (backendSeq h) \<longleftrightarrow>
     (\<exists>p \<in> set (listenIPs (desiredConfig h)). \<exists>q \<in> set (snd p).
        \<exists>r \<in> set (hostnameBackends (snd q)). e = (mode (snd q), snd r))"
  by (auto simp: backendSeq_def case_prod_unfold)

lemma in_storedBackends:
  "b \<in> set (storedBackends h) \<longleftrightarrow>
     (\<exists>p \<in> set (listenIPs (desiredConfig h)). \<exists>q \<in> set (snd p).
        \<exists>r \<in> set (hostnameBackends (snd q)). b = snd r)"
  by (auto simp: storedBackends_def case_prod_unfold)

lemma set_backendSeq: "snd ` set (backendSeq h) = set (storedBackends h)"
proof (intro set_eqI iffI)
  fix b
  assume "b \<in> snd ` set (backendSeq h)"
  then obtain m where "(m, b) \<in> set (backendSeq h)" by force
  then obtain p q r where
    "p \<in> set (listenIPs (desiredConfig h))" "q \<in> set (snd p)"
    "r \<in> set (hostnameBackends (snd q))" "b = snd r"
    unfolding in_backendSeq by blast
  then show "b \<in> set (storedBackends h)"
    unfolding in_storedBackends by blast
next
  fix b
  assume "b \<in> set (storedBackends h)"
  then obtain p q r where
    "p \<in> set (listenIPs (desiredConfig h))" "q \<in> set (snd p)"
    "r \<in> set (hostnameBackends (snd q))" "b = snd r"
    unfolding in_storedBackends by blast
  then have "(mode (snd q), b) \<in> set (backendSeq h)"
    unfolding in_backendSeq by blast
  then show "b \<in> snd ` set (backendSeq h)" by force
qed

lemma ownSlices_backendSeq:
  assumes "ownSlices h"
  shows "\<forall>e1 \<in> set (backendSeq h). \<forall>e2 \<in> set (backendSeq h).
           sameOrApart (Backends (snd e1)) (Backends (snd e2))"
proof -
  have "snd e \<in> set (storedBackends h)" if "e \<in> set (backendSeq h)" for e
    using that set_backendSeq[of h] by blast
  with assms show ?thesis by (simp add: ownSlices_def)
qed

lemma Render_heap:
  assumes "wf_store h" and "Render srt hp h = Inr (out, h', hp')"
  shows "hp' = foldl (sortSlice srt) hp (map (\<lambda>entry. Backends (snd entry)) (backendSeq h))"
proof -
  from Render_result[OF assms] have
    "(out, hp') = foldl (backendStep srt) (frontendsText h, hp) (backendSeq h)" by simp
  then have "hp' = snd (foldl (backendStep srt) (frontendsText h, hp) (backendSeq h))"
    by (metis snd_conv)
  then show ?thesis by (simp only: backendStep_heap)
qed

lemma Render_owned:
  assumes "wf_store h" and "ownSlices h" and "sortContract srt"
    and "Render srt hp h = Inr (out, h', hp')"
  shows "out = frontendsText h @ backendsText srt hp h"
    and "\<forall>b \<in> set (storedBackends h). readSlice hp' (Backends b) = srt (readSlice hp (Backends b))"
proof -
  from Render_result[OF assms(1,4)] have
    "(out, hp') = foldl (backendStep srt) (frontendsText h, hp) (backendSeq h)" by simp
  then have "out = fst (foldl (backendStep srt) (frontendsText h, hp) (backendSeq h))"
    by (metis fst_conv)
  then show "out = frontendsText h @ backendsText srt hp h"
    by (simp only: backendStep_text[OF assms(3) ownSlices_backendSeq[OF assms(2)]]
        backendsText_def)
  note hp' = Render_heap[OF assms(1,4)]
  show "\<forall>b \<in> set (storedBackends h). readSlice hp' (Backends b) = srt (readSlice hp (Backends b))"
  proof
    fix b
    assume b: "b \<in> set (storedBackends h)"
    let ?ss = "map (\<lambda>entry. Backends (snd entry)) (backendSeq h)"
    from b have in_ss: "Backends b \<in> set ?ss"
      using set_backendSeq[of h] by force
    have "\<forall>s' \<in> set ?ss. sameOrApart s' (Backends b)"
    proof
      fix s'
      assume "s' \<in> set ?ss"
      then obtain b' where "b' \<in> set (storedBackends h)" "s' = Backends b'"
        using set_backendSeq[of h] by force
      with assms(2) b show "sameOrApart s' (Backends b)" by (simp add: ownSlices_def)
    qed
    from readSlice_fold_sortSlice[OF assms(3) this, of hp] in_ss
    show "readSlice hp' (Backends b) = srt (readSlice hp (Backends b))"
      unfolding hp' by simp
  qed
qed

text \<open>
  Whatever the slices share, the second pass moves servers only within their arrays.
\<close>

lemma Render_arrays:
  assumes "wf_store h" and "sortContract srt" and "Render srt hp h = Inr (out, h', hp')"
  shows "length hp' = length hp" and "mset (array hp' p) = mset (array hp p)"
  unfolding Render_heap[OF assms(1,3)]
  by (simp_all add: mset_array_fold_sortSlice[OF assms(2)])

text \<open>A second call finds everything sorted: the same text, and nothing moves.\<close>

lemma Render_again:
  assumes "wf_store h" and "ownSlices h" and "sortContract srt"
    and "Render srt hp h = Inr (out, h', hp')"
  shows "Render srt hp' h' = Inr (out, h', hp')"
proof -
  have h': "h' = sortedStore h" using Render_result[OF assms(1,4)] by simp
  note own = Render_owned[OF assms]
  from Render_returns[OF assms(4), of srt hp'] obtain r where "Render srt hp' h = Inr r" by blast
  with Render_rel[OF sameStore_sortedStore[of h], of srt hp']
  obtain out2 h2 hp2 where r2: "Render srt hp' (sortedStore h) = Inr (out2, h2, hp2)"
    by (cases "Render srt hp' (sortedStore h)") auto
  have wf2: "wf_store (sortedStore h)" using assms(1) by (rule wf_sortedStore)
  have own2: "ownSlices (sortedStore h)" using assms(2) by (simp add: ownSlices_def)
  have sorted: "srt (readSlice hp' (Backends b)) = readSlice hp' (Backends b)"
    if "b \<in> set (storedBackends h)" for b
    using own(2) that by (simp add: sortContract_idem[OF assms(3)])
  have "h2 = sortedStore h" using Render_result[OF wf2 r2] by simp
  moreover have "out2 = out"
  proof -
    have "backendsText srt hp' (sortedStore h) = backendsText srt hp h"
      unfolding backendsText_def backendSeq_sortedStore
    proof (rule arg_cong[where f = concat], rule map_cong[OF refl])
      fix e
      assume "e \<in> set (backendSeq h)"
      then have "snd e \<in> set (storedBackends h)" using set_backendSeq[of h] by blast
      with own(2) sorted[of "snd e"]
      show "(case e of (listenerMode, backend) \<Rightarrow>
               backendText listenerMode backend (srt (readSlice hp' (Backends backend))))
          = (case e of (listenerMode, backend) \<Rightarrow>
               backendText listenerMode backend (srt (readSlice hp (Backends backend))))"
        by (cases e) simp
    qed
    with Render_owned(1)[OF wf2 own2 assms(3) r2] own(1) show ?thesis by simp
  qed
  moreover have "hp2 = hp'"
  proof -
    have "\<forall>s \<in> set (map (\<lambda>entry. Backends (snd entry)) (backendSeq h)).
            sorted (map ServerName (readSlice hp' s))"
    proof
      fix s
      assume "s \<in> set (map (\<lambda>entry. Backends (snd entry)) (backendSeq h))"
      then obtain b where b: "b \<in> set (storedBackends h)" "s = Backends b"
        using set_backendSeq[of h] by force
      from assms(3) have "sorted (map ServerName (srt (readSlice hp (Backends b))))"
        by (simp add: sortContract_def)
      with own(2) b show "sorted (map ServerName (readSlice hp' s))" by simp
    qed
    from fold_sortSlice_sorted[OF assms(3) this] Render_heap[OF wf2 r2]
    show ?thesis by simp
  qed
  ultimately show ?thesis using r2 h' by simp
qed

text \<open>The text holds the frontend stanza of every listener of the store.\<close>

lemma concat_map_split:
  "x \<in> set xs \<Longrightarrow> \<exists>pre post. concat (map f xs) = pre @ f x @ post"
  by (fastforce dest!: split_list)

lemma Render_frontend:
  assumes "wf_store h" and "Render srt hp h = Inr (out, h', hp')"
    and "lookupListener h listenIP port = Some l"
  shows "\<exists>pre post. out = pre @ frontendText listenIP port l @ post"
proof -
  from assms(3) obtain inner where
    i: "map_of (listenIPs (desiredConfig h)) listenIP = Some inner" and p: "map_of inner port = Some l"
    unfolding lookupListener_Some by blast
  from i have "(listenIP, inner) \<in> set (byKey (listenIPs (desiredConfig h)))"
    by (auto dest: map_of_SomeD)
  from concat_map_split[OF this, of "\<lambda>(listenIP, inner).
      concat (map (\<lambda>(port, l). frontendText listenIP port l) (byKey inner))"]
  obtain pre1 post1 where 1: "frontendsText h
      = pre1 @ concat (map (\<lambda>(port, l). frontendText listenIP port l) (byKey inner)) @ post1"
    by (auto simp: frontendsText_def)
  from p have "(port, l) \<in> set (byKey inner)" by (auto dest: map_of_SomeD)
  from concat_map_split[OF this, of "\<lambda>(port, l). frontendText listenIP port l"]
  obtain pre2 post2 where 2: "concat (map (\<lambda>(port, l). frontendText listenIP port l) (byKey inner))
      = pre2 @ frontendText listenIP port l @ post2"
    by auto
  from Render_result[OF assms(1,2)] have
    "(out, hp') = foldl (backendStep srt) (frontendsText h, hp) (backendSeq h)" by simp
  then have "out = fst (foldl (backendStep srt) (frontendsText h, hp) (backendSeq h))"
    by (metis fst_conv)
  with backendStep_appends[of srt "frontendsText h" hp "backendSeq h"]
  obtain suffix where "out = frontendsText h @ suffix" by auto
  then have "out = (pre1 @ pre2) @ frontendText listenIP port l @ (post2 @ post1 @ suffix)"
    unfolding 1 2 by simp
  then show ?thesis by blast
qed

section \<open>Accepted requests\<close>

lemma AddListener_accepted_iff:
  "AddListener h hlc = Returned [] h' \<longleftrightarrow>
     fst (validate hlc h) \<and>
     (case lookupListener h (ListenIP hlc) (ListenPort hlc) of
        None \<Rightarrow> h' = storeListener h (ListenIP hlc) (ListenPort hlc)
                       (mergeRequest hlc (newListener hlc))
      | Some l \<Rightarrow> Mode hlc \<noteq> ''tcp'' \<and>
          h' = storeListener h (ListenIP hlc) (ListenPort hlc) (mergeRequest hlc l))"
proof (cases "fst (validate hlc h)")
  case True
  then show ?thesis
    by (auto simp: AddListener_accepted split: option.splits)
next
  case False
  then show ?thesis by (simp add: AddListener_rejected)
qed

lemma lookupListener_storeListener [simp]:
  "lookupListener (storeListener h ip port l) ip port = Some l"
  by (simp add: lookupListener_def storeListener_def Let_def update_conv')

lemma mergeRequest_simps [simp]:
  "name (mergeRequest hlc l) = name l"
  "mode (mergeRequest hlc l) = mode l"
  "useSSL (mergeRequest hlc l) = useSSL l"
  "sslCertificates (mergeRequest hlc l) =
     (if SslCertificate hlc \<noteq> '''' then sslCertificates l @ [SslCertificate hlc]
      else sslCertificates l)"
  "hostnameBackends (mergeRequest hlc l) =
     AList.update (if Mode hlc = ''tcp'' then ''_'' else Hostname hlc) (Backend hlc)
       (hostnameBackends l)"
  by (simp_all add: mergeRequest_def Let_def)

lemma newListener_simps [simp]:
  "name (newListener hlc) = Name hlc"
  "mode (newListener hlc) = Mode hlc"
  "useSSL (newListener hlc) = (SslCertificate hlc \<noteq> '''')"
  "sslCertificates (newListener hlc) = []"
  "hostnameBackends (newListener hlc) = []"
  by (simp_all add: newListener_def)

text \<open>The listener that an accepted request leaves at its address and port.\<close>

lemma AddListener_accepted_listener:
  assumes "AddListener h hlc = Returned [] h'"
  shows "\<exists>l0. lookupListener h' (ListenIP hlc) (ListenPort hlc) = Some (mergeRequest hlc l0)
           \<and> mode l0 = Mode hlc \<and> useSSL l0 = (SslCertificate hlc \<noteq> '''')
           \<and> sslCertificates l0 =
               (case lookupListener h (ListenIP hlc) (ListenPort hlc) of
                  None \<Rightarrow> [] | Some l \<Rightarrow> sslCertificates l)
           \<and> h' = storeListener h (ListenIP hlc) (ListenPort hlc) (mergeRequest hlc l0)"
proof (cases "lookupListener h (ListenIP hlc) (ListenPort hlc)")
  case None
  with assms show ?thesis
    by (intro exI[of _ "newListener hlc"]) (simp add: AddListener_accepted_iff)
next
  case (Some l)
  with assms show ?thesis
    by (intro exI[of _ l]) (simp add: AddListener_accepted_iff validate_verdict)
qed


section \<open>The stores that AddListener builds\<close>

text \<open>
  The two properties of stores that the theorems about \<open>Render\<close> assume hold in the
  empty store, and every call of \<open>AddListener\<close> that returns keeps them.
\<close>

lemma update_entries:
  assumes "\<forall>(k, v) \<in> set m. Q v" and "Q v'"
  shows "\<forall>(k, v) \<in> set (AList.update k' v' m). Q v"
proof -
  have "Q v" if "(k, v) \<in> set (AList.update k' v' m)" for k v
  proof -
    from that set_update_subset[of k' v' m] have "(k, v) = (k', v') \<or> (k, v) \<in> set m" by auto
    with assms show ?thesis by auto
  qed
  then show ?thesis by auto
qed

lemma storeListener_entries:
  assumes "\<forall>(ip, inner) \<in> set (listenIPs (desiredConfig h)). \<forall>(port, l) \<in> set inner. P l"
    and "P l'"
  shows "\<forall>(ip, inner) \<in> set (listenIPs (desiredConfig (storeListener h ip' port' l'))).
           \<forall>(port, l) \<in> set inner. P l"
proof -
  let ?ips = "listenIPs (desiredConfig h)"
  let ?inner = "case map_of ?ips ip' of None \<Rightarrow> [] | Some m \<Rightarrow> m"
  have inner: "\<forall>(port, l) \<in> set ?inner. P l"
  proof (cases "map_of ?ips ip'")
    case None
    then show ?thesis by simp
  next
    case (Some m)
    then have "(ip', m) \<in> set ?ips" by (rule map_of_SomeD)
    with assms(1) Some show ?thesis by auto
  qed
  have "\<forall>(port, l) \<in> set (AList.update port' l' ?inner). P l"
    using inner assms(2) by (rule update_entries)
  with assms(1)
  have "\<forall>(ip, inner) \<in> set (AList.update ip' (AList.update port' l' ?inner) ?ips).
               \<forall>(port, l) \<in> set inner. P l"
    by (rule update_entries[where Q = "\<lambda>inner. \<forall>(port, l) \<in> set inner. P l"])
  then show ?thesis by (simp add: storeListener_def Let_def)
qed

lemma storeListener_wf:
  assumes "wf_store h" and "distinct (map fst (hostnameBackends l'))"
  shows "wf_store (storeListener h ip' port' l')"
proof -
  let ?ips = "listenIPs (desiredConfig h)"
  let ?inner = "case map_of ?ips ip' of None \<Rightarrow> [] | Some m \<Rightarrow> m"
  from assms(1) have d: "distinct (map fst ?ips)"
    and di: "\<forall>(ip, inner) \<in> set ?ips. distinct (map fst inner)"
    and dh: "\<forall>(ip, inner) \<in> set ?ips. \<forall>(port, l) \<in> set inner.
               distinct (map fst (hostnameBackends l))"
    by (auto simp: wf_store_def list_all_iff)
  have "distinct (map fst ?inner)"
  proof (cases "map_of ?ips ip'")
    case None
    then show ?thesis by simp
  next
    case (Some m)
    then have "(ip', m) \<in> set ?ips" by (rule map_of_SomeD)
    with di Some show ?thesis by auto
  qed
  then have 1: "distinct (map fst (AList.update port' l' ?inner))"
    by (rule distinct_update)
  have 2: "distinct (map fst (AList.update ip' (AList.update port' l' ?inner) ?ips))"
    using d by (rule distinct_update)
  have 3: "\<forall>(ip, inner) \<in> set (AList.update ip' (AList.update port' l' ?inner) ?ips).
             distinct (map fst inner)"
    using di 1 by (rule update_entries[where Q = "\<lambda>inner. distinct (map fst inner)"])
  note 4 = storeListener_entries[where P = "\<lambda>l. distinct (map fst (hostnameBackends l))",
      OF dh assms(2), of ip' port']
  from 2 3 4 show ?thesis
    by (auto simp: wf_store_def list_all_iff storeListener_def Let_def)
qed

lemma AddListener_Returned_cases:
  assumes "AddListener h hlc = Returned out h'"
  shows "h' = h \<or>
         (\<exists>l0. mode l0 = Mode hlc
            \<and> (l0 = newListener hlc \<or> lookupListener h (ListenIP hlc) (ListenPort hlc) = Some l0)
            \<and> h' = storeListener h (ListenIP hlc) (ListenPort hlc) (mergeRequest hlc l0))"
proof (cases "fst (validate hlc h)")
  case False
  with assms show ?thesis by (simp add: AddListener_rejected)
next
  case True
  show ?thesis
  proof (cases "lookupListener h (ListenIP hlc) (ListenPort hlc)")
    case None
    with True assms show ?thesis
      by (intro disjI2 exI[of _ "newListener hlc"]) (simp add: AddListener_accepted)
  next
    case (Some l)
    with True assms show ?thesis
      by (intro disjI2 exI[of _ l])
         (simp add: AddListener_accepted validate_verdict split: if_splits)
  qed
qed

lemma lookupListener_entries:
  assumes "lookupListener h ip port = Some l"
    and "\<forall>(ip, inner) \<in> set (listenIPs (desiredConfig h)). \<forall>(port, l) \<in> set inner. P l"
  shows "P l"
  using assms unfolding lookupListener_Some by (auto dest!: map_of_SomeD)

lemma AddListener_wf:
  assumes "wf_store h" and "AddListener h hlc = Returned out h'"
  shows "wf_store h'"
proof -
  from AddListener_Returned_cases[OF assms(2)] consider
    (same) "h' = h"
  | (stored) l0 where "mode l0 = Mode hlc"
      "l0 = newListener hlc \<or> lookupListener h (ListenIP hlc) (ListenPort hlc) = Some l0"
      "h' = storeListener h (ListenIP hlc) (ListenPort hlc) (mergeRequest hlc l0)"
    by blast
  then show ?thesis
  proof cases
    case same
    with assms(1) show ?thesis by simp
  next
    case (stored l0)
    note l0 = stored(2) and h' = stored(3)
    from assms(1) have dh: "\<forall>(ip, inner) \<in> set (listenIPs (desiredConfig h)).
        \<forall>(port, l) \<in> set inner. distinct (map fst (hostnameBackends l))"
      by (auto simp: wf_store_def list_all_iff)
    from l0 have "distinct (map fst (hostnameBackends l0))"
      using lookupListener_entries[where P = "\<lambda>l. distinct (map fst (hostnameBackends l))", OF _ dh]
      by auto
    then have "distinct (map fst (hostnameBackends (mergeRequest hlc l0)))"
      by (simp add: distinct_update)
    with assms(1) show ?thesis unfolding h' by (rule storeListener_wf)
  qed
qed

lemma AddListener_tcpListenersHaveBackend:
  assumes "tcpListenersHaveBackend h" and "AddListener h hlc = Returned out h'"
  shows "tcpListenersHaveBackend h'"
proof -
  from assms(1) have t: "\<forall>(ip, inner) \<in> set (listenIPs (desiredConfig h)).
      \<forall>(port, l) \<in> set inner. tcpHasBackend l"
    by (auto simp: tcpListenersHaveBackend_def list_all_iff)
  from AddListener_Returned_cases[OF assms(2)] consider
    (same) "h' = h"
  | (stored) l0 where "mode l0 = Mode hlc"
      "l0 = newListener hlc \<or> lookupListener h (ListenIP hlc) (ListenPort hlc) = Some l0"
      "h' = storeListener h (ListenIP hlc) (ListenPort hlc) (mergeRequest hlc l0)"
    by blast
  then show ?thesis
  proof cases
    case same
    with assms(1) show ?thesis by simp
  next
    case (stored l0)
    note m = stored(1) and h' = stored(3)
    have "tcpHasBackend (mergeRequest hlc l0)"
      using m by (simp add: tcpHasBackend_def update_conv')
    from storeListener_entries[where P = tcpHasBackend, OF t this] show ?thesis
      unfolding h' by (auto simp: tcpListenersHaveBackend_def list_all_iff)
  qed
qed

lemma emptyStore_invariants: "wf_store emptyStore" "tcpListenersHaveBackend emptyStore"
  by (simp_all add: wf_store_def tcpListenersHaveBackend_def emptyStore_def Initialize_def)

lemma AddListeners_invariants:
  assumes "AddListeners h requests = Inr h'" and "wf_store h" and "tcpListenersHaveBackend h"
  shows "wf_store h' \<and> tcpListenersHaveBackend h'"
  using assms
proof (induction requests arbitrary: h)
  case Nil
  then show ?case by simp
next
  case (Cons hlc requests)
  from Cons.prems(1) obtain out h1 where
    1: "AddListener h hlc = Returned out h1" and 2: "AddListeners h1 requests = Inr h'"
    by (auto split: outcome.splits)
  from Cons.IH[OF 2 AddListener_wf[OF Cons.prems(2) 1]
      AddListener_tcpListenersHaveBackend[OF Cons.prems(3) 1]]
  show ?case .
qed

text \<open>Every store built from the empty one by calls of \<open>AddListener\<close> renders.\<close>

lemma built_store_renders:
  assumes "AddListeners emptyStore requests = Inr h"
  shows "wf_store h \<and> tcpListenersHaveBackend h
         \<and> (\<exists>out h' hp'. Render srt hp h = Inr (out, h', hp'))"
  using AddListeners_invariants[OF assms emptyStore_invariants] Render_total by blast

text \<open>
  The head of the frontend stanza of a listener with SSL, as the text of the store has it:
  the \<open>bind\<close> line carries one \<open>crt\<close> directive for every non-empty certificate
  name of the listener, each name once.
\<close>

lemma Render_bind_line:
  assumes "wf_store h" and "Render srt hp h = Inr (out, h', hp')"
    and "lookupListener h listenIP port = Some l" and "useSSL l"
  shows "\<exists>pre post. out =
           pre @ ''frontend '' @ name l @ NL @ ''    mode '' @ mode l @ NL
             @ ''    bind '' @ listenIP @ '':'' @ Itoa (uint port) @ '' ssl''
             @ concat (map crtDirective
                 (sort (remdups (filter (\<lambda>c. c \<noteq> '''') (sslCertificates l)))))
             @ NL @ post"
proof -
  from Render_frontend[OF assms(1,2,3)] obtain pre post where
    "out = pre @ frontendText listenIP port l @ post" by blast
  with assms(4) have "out =
           pre @ ''frontend '' @ name l @ NL @ ''    mode '' @ mode l @ NL
             @ ''    bind '' @ listenIP @ '':'' @ Itoa (uint port) @ '' ssl''
             @ concat (map crtDirective
                 (sort (remdups (filter (\<lambda>c. c \<noteq> '''') (sslCertificates l)))))
             @ NL @ ((if mode l = ''http''
                      then ''    reqadd x-forwarded-proto:'' @ [CHR 0x5C] @ '' https'' else [])
                     @ NL @ NL @ frontendRules port l @ post)"
    by (simp add: frontendText_def frontendHead_def)
  then show ?thesis by blast
qed

lemma sortedStore_lookup:
  "lookupListener (sortedStore h) listenIP port
     = map_option sortCertificates (lookupListener h listenIP port)"
proof -
  have inner: "map_of (map (\<lambda>(port, l). (port, sortCertificates l)) inner) port
                 = map_option sortCertificates (map_of inner port)"
    for inner :: "(16 word, haproxyListener) gomap"
    by (induction inner) auto
  have outer: "map_of (map (\<lambda>(ip, inner). (ip, g inner)) m) listenIP
                 = map_option g (map_of m listenIP)"
    for m :: "(string, (16 word, haproxyListener) gomap) gomap" and g
    by (induction m) auto
  show ?thesis
    by (simp add: lookupListener_def sortedStore_def outer inner split: option.splits)
qed

section \<open>The claims about AddListener\<close>

lemma add_example_http:
  "AddListener emptyStore exampleRequest =
     Returned [] (exampleStore (exampleListener ''http'' [] ''example.com''))"
  by (simp add: eval_defs)

lemma add_example_tcp:
  "AddListener emptyStore (exampleRequest\<lparr>Mode := ''tcp''\<rparr>) =
     Returned [] (exampleStore (exampleListener ''tcp'' [] ''_''))"
  by (simp add: eval_defs)

text \<open>
  Claim C1. Where a listener is already stored at the request's address and port, a request
  in mode \<open>tcp\<close> that passes validation makes \<open>AddListener\<close> panic, after one line
  on the console; it does not return, as a rejected request does.
\<close>

theorem second_tcp_listener_panics:
  assumes "lookupListener h (ListenIP hlc) (ListenPort hlc) = Some l"
    and "Mode hlc = ''tcp''"
    and "fst (validate hlc h)"
  shows "AddListener h hlc =
           Panicked [duplicateTcpMessage (ListenPort hlc)] (Panic duplicateTcpPanic)
         \<and> (\<forall>out h'. AddListener h hlc \<noteq> Returned out h')"
  using assms by (simp add: AddListener_accepted)

text \<open>A second \<open>tcp\<close> request on the port of a stored \<open>tcp\<close> listener.\<close>

theorem second_tcp_listener_panics_witness:
  "lookupListener (exampleStore (exampleListener ''tcp'' [] ''_'')) ''0.0.0.0'' 80
       = Some (exampleListener ''tcp'' [] ''_'')
   \<and> fst (validate (exampleRequest\<lparr>Mode := ''tcp''\<rparr>) (exampleStore (exampleListener ''tcp'' [] ''_'')))
   \<and> AddListener (exampleStore (exampleListener ''tcp'' [] ''_'')) (exampleRequest\<lparr>Mode := ''tcp''\<rparr>)
       = Panicked [''A listener for another TCP service is already configured on the port (80)'']
           (Panic ''This could cause unpredictability in the service router'')"
proof -
  let ?h = "exampleStore (exampleListener ''tcp'' [] ''_'')"
  let ?r = "exampleRequest\<lparr>Mode := ''tcp''\<rparr>"
  have 1: "lookupListener ?h (ListenIP ?r) (ListenPort ?r) = Some (exampleListener ''tcp'' [] ''_'')"
    by (simp add: eval_defs)
  have 2: "Mode ?r = ''tcp''" by simp
  have 3: "fst (validate ?r ?h)" by (simp add: eval_defs)
  have 4: "duplicateTcpMessage 80
             = ''A listener for another TCP service is already configured on the port (80)''"
    by (simp add: eval_defs)
  have 5: "ListenIP ?r = ''0.0.0.0''" "ListenPort ?r = 80" by (simp_all add: exampleRequest_def)
  from second_tcp_listener_panics[OF 1 2 3] 1 3 show ?thesis
    unfolding 4 5 duplicateTcpPanic_def by simp
qed

text \<open>
  Claim C7. A request whose mode is neither \<open>http\<close> nor \<open>tcp\<close> fails validation
  whatever the store holds: the message about the mode is among the errors, the call
  prints the request's name and the errors, and returns the store as it was.
\<close>

theorem invalid_mode_rejected:
  assumes "Mode hlc \<noteq> ''http''" and "Mode hlc \<noteq> ''tcp''"
  shows "\<not> fst (validate hlc h)
         \<and> invalidModeMessage (Mode hlc) \<in> set (validationErrors (snd (validate hlc h)))
         \<and> AddListener h hlc =
             Returned (Name hlc # map (\<lambda>message. ''  '' @ message)
               (validationErrors (snd (validate hlc h)))) h"
  using assms by (simp add: validate_verdict validate_errors AddListener_rejected)

text \<open>Mode \<open>ftp\<close>, on a port that a http listener occupies.\<close>

theorem invalid_mode_rejected_witness:
  "Mode (exampleRequest\<lparr>Mode := ''ftp''\<rparr>) \<noteq> ''http''
   \<and> Mode (exampleRequest\<lparr>Mode := ''ftp''\<rparr>) \<noteq> ''tcp''
   \<and> AddListener (exampleStore (exampleListener ''http'' [] ''example.com''))
        (exampleRequest\<lparr>Mode := ''ftp''\<rparr>)
       = Returned [''web'',
           ''  Invalid mode (ftp) specified - valid options '' @ [CHR 0x27] @ ''http'' @ [CHR 0x27]
              @ '', '' @ [CHR 0x27] @ ''tcp'' @ [CHR 0x27],
           ''  Mode does not match on service'']
          (exampleStore (exampleListener ''http'' [] ''example.com''))"
proof -
  let ?h = "exampleStore (exampleListener ''http'' [] ''example.com'')"
  let ?r = "exampleRequest\<lparr>Mode := ''ftp''\<rparr>"
  have 1: "Mode ?r \<noteq> ''http''" and 2: "Mode ?r \<noteq> ''tcp''" by simp_all
  have 3: "Name ?r = ''web''" by (simp add: exampleRequest_def)
  have 4: "validationErrors (snd (validate ?r ?h)) =
      [''Invalid mode (ftp) specified - valid options '' @ [CHR 0x27] @ ''http'' @ [CHR 0x27]
              @ '', '' @ [CHR 0x27] @ ''tcp'' @ [CHR 0x27], ''Mode does not match on service'']"
    by (simp add: eval_defs)
  from invalid_mode_rejected[OF 1 2, of ?h] 1 2 show ?thesis
    unfolding 3 4 by simp
qed

text \<open>
  Claim C3. On an occupied address and port the mode check and the SSL check are made
  one after the other, each adding its own message, so that one call can report both;
  the request is valid only if all checks pass; and a request that fails is answered by
  printing its name and every accumulated message, with the store returned unchanged.
\<close>

theorem validation_failure_atomic_reject:
  assumes "lookupListener h (ListenIP hlc) (ListenPort hlc) = Some l"
  shows "validationErrors (snd (validate hlc h)) =
           validationErrors hlc
             @ (if Mode hlc \<noteq> ''http'' \<and> Mode hlc \<noteq> ''tcp''
                then [invalidModeMessage (Mode hlc)] else [])
             @ (if mode l \<noteq> Mode hlc then [modeMismatchMessage] else [])
             @ (if useSSL l \<noteq> (SslCertificate hlc \<noteq> '''') then [sslMismatchMessage] else [])
         \<and> (fst (validate hlc h) \<longleftrightarrow>
               (Mode hlc = ''http'' \<or> Mode hlc = ''tcp'') \<and> mode l = Mode hlc
                 \<and> useSSL l = (SslCertificate hlc \<noteq> ''''))
         \<and> (\<not> fst (validate hlc h) \<longrightarrow>
               AddListener h hlc =
                 Returned (Name hlc # map (\<lambda>message. ''  '' @ message)
                   (validationErrors (snd (validate hlc h)))) h)"
  using assms by (simp add: validate_verdict validate_errors AddListener_rejected)

text \<open>A \<open>tcp\<close> request with a certificate on a plain http listener: both messages.\<close>

theorem validation_failure_atomic_reject_witness:
  "lookupListener (exampleStore (exampleListener ''http'' [] ''example.com'')) ''0.0.0.0'' 80
       = Some (exampleListener ''http'' [] ''example.com'')
   \<and> \<not> fst (validate (exampleRequest\<lparr>Mode := ''tcp'', SslCertificate := ''cert.pem''\<rparr>)
               (exampleStore (exampleListener ''http'' [] ''example.com'')))
   \<and> AddListener (exampleStore (exampleListener ''http'' [] ''example.com''))
        (exampleRequest\<lparr>Mode := ''tcp'', SslCertificate := ''cert.pem''\<rparr>)
       = Returned [''web'', ''  Mode does not match on service'',
           ''  SSL Certificate provided on a service that isn'' @ [CHR 0x27] @ ''t using SSL'']
          (exampleStore (exampleListener ''http'' [] ''example.com''))"
proof -
  let ?l = "exampleListener ''http'' [] ''example.com''"
  let ?h = "exampleStore ?l"
  let ?r = "exampleRequest\<lparr>Mode := ''tcp'', SslCertificate := ''cert.pem''\<rparr>"
  have 1: "lookupListener ?h (ListenIP ?r) (ListenPort ?r) = Some ?l" by (simp add: eval_defs)
  have 2: "ListenIP ?r = ''0.0.0.0''" "ListenPort ?r = 80" "Name ?r = ''web''"
    "validationErrors ?r = []" "Mode ?r = ''tcp''" "SslCertificate ?r = ''cert.pem''"
    by (simp_all add: exampleRequest_def)
  have 3: "mode ?l = ''http''" "useSSL ?l = False" by (simp_all add: exampleListener_def)
  from validation_failure_atomic_reject[OF 1] 1 show ?thesis
    unfolding 2 3 modeMismatchMessage_def sslMismatchMessage_def by simp
qed

lemma sort_single: "sortContract srt \<Longrightarrow> srt [x] = [x]"
  by (simp add: sortContract_def)

text \<open>
  Claim C6. The single request of the end-to-end example is accepted by the empty store,
  and \<open>Render\<close> of the result is exactly \<open>exampleText\<close>: a frontend \<open>web\<close> in mode
  http bound to 0.0.0.0:80, the two \<open>use_backend web-be\<close> rules for the host with and
  without the port, and the backend \<open>web-be\<close> with \<open>balance roundrobin\<close> and the one
  server line. The store and the heap are left as they were. This holds for every
  sort that \<open>sort.Slice\<close> may be: one server leaves it no choice.
\<close>

theorem render_example:
  assumes "sortContract srt"
  shows "AddListener emptyStore exampleRequest
           = Returned [] (exampleStore (exampleListener ''http'' [] ''example.com''))
         \<and> Render srt exampleHeap (exampleStore (exampleListener ''http'' [] ''example.com''))
           = Inr (exampleText, exampleStore (exampleListener ''http'' [] ''example.com''),
                  exampleHeap)"
proof -
  have "Render srt exampleHeap (exampleStore (exampleListener ''http'' [] ''example.com''))
          = Inr (exampleText, exampleStore (exampleListener ''http'' [] ''example.com''),
                 exampleHeap)"
    by (simp add: eval_defs sort_single[OF assms])
  with add_example_http show ?thesis by simp
qed

text \<open>The example with the insertion sort.\<close>

theorem render_example_witness:
  "sortContract insertionSort
   \<and> AddListener emptyStore exampleRequest
       = Returned [] (exampleStore (exampleListener ''http'' [] ''example.com''))
   \<and> Render insertionSort exampleHeap (exampleStore (exampleListener ''http'' [] ''example.com''))
       = Inr (exampleText, exampleStore (exampleListener ''http'' [] ''example.com''), exampleHeap)"
  using render_example[OF sortContract_insertionSort] sortContract_insertionSort by simp

section \<open>The claims about Render\<close>

lemma render_tcp_example:
  "Render insertionSort exampleHeap (exampleStore (exampleListener ''tcp'' [] ''_''))
     = Inr (tcpExampleText, exampleStore (exampleListener ''tcp'' [] ''_''), exampleHeap)"
  by (simp add: eval_defs)

lemma render_tcp_without_backend:
  "Render insertionSort exampleHeap (exampleStore (exampleListener ''tcp'' [] ''example.com''))
     = Inl NilPointerDereference"
  by (simp add: eval_defs)

lemma wf_examples:
  "wf_store (exampleStore l) \<longleftrightarrow> distinct (map fst (hostnameBackends l))"
  by (simp add: wf_store_def exampleStore_def)

text \<open>
  Claim C10. \<open>Render\<close> returns a text, a store and a heap, and dereferences no nil
  pointer, from every store in which each listener in mode \<open>tcp\<close> has a backend under
  the hostname \<open>_\<close>, whatever the heap holds and whatever \<open>sort.Slice\<close> does.
\<close>

theorem Render_total_on_invariant:
  assumes "tcpListenersHaveBackend h"
  shows "\<exists>out h' hp'. Render srt hp h = Inr (out, h', hp')"
  using assms by (rule Render_total)

text \<open>A store with one \<open>tcp\<close> listener and its backend under \<open>_\<close>.\<close>

theorem Render_total_on_invariant_witness:
  "tcpListenersHaveBackend (exampleStore (exampleListener ''tcp'' [] ''_''))
   \<and> (\<exists>out h' hp'. Render insertionSort exampleHeap (exampleStore (exampleListener ''tcp'' [] ''_''))
         = Inr (out, h', hp'))"
proof -
  have 1: "tcpListenersHaveBackend (exampleStore (exampleListener ''tcp'' [] ''_''))"
    by (simp add: eval_defs)
  from Render_total_on_invariant[OF 1] 1 show ?thesis by simp
qed

text \<open>
  Claim C8, as stated, fails: \<open>Render\<close> sorts the certificate slice of a listener in
  place. The store below is the one that two accepted requests with the certificates
  b.pem and a.pem build; after \<open>Render\<close> the certificates are stored in the other order.
\<close>

theorem Render_mutates_store_counterexample:
  "AddListeners emptyStore
       [exampleRequest\<lparr>SslCertificate := ''b.pem''\<rparr>, exampleRequest\<lparr>SslCertificate := ''a.pem''\<rparr>]
     = Inr (exampleStore (exampleListener ''http'' [''b.pem'', ''a.pem''] ''example.com''))
   \<and> Render insertionSort exampleHeap
        (exampleStore (exampleListener ''http'' [''b.pem'', ''a.pem''] ''example.com''))
     = Inr (sslExampleText,
            exampleStore (exampleListener ''http'' [''a.pem'', ''b.pem''] ''example.com''),
            exampleHeap)
   \<and> exampleStore (exampleListener ''http'' [''a.pem'', ''b.pem''] ''example.com'')
     \<noteq> exampleStore (exampleListener ''http'' [''b.pem'', ''a.pem''] ''example.com'')"
proof -
  have "AddListeners emptyStore
       [exampleRequest\<lparr>SslCertificate := ''b.pem''\<rparr>, exampleRequest\<lparr>SslCertificate := ''a.pem''\<rparr>]
     = Inr (exampleStore (exampleListener ''http'' [''b.pem'', ''a.pem''] ''example.com''))"
    by (simp add: eval_defs)
  moreover have "Render insertionSort exampleHeap
        (exampleStore (exampleListener ''http'' [''b.pem'', ''a.pem''] ''example.com''))
     = Inr (sslExampleText,
            exampleStore (exampleListener ''http'' [''a.pem'', ''b.pem''] ''example.com''),
            exampleHeap)"
    by (simp add: eval_defs)
  moreover have "exampleStore (exampleListener ''http'' [''a.pem'', ''b.pem''] ''example.com'')
     \<noteq> exampleStore (exampleListener ''http'' [''b.pem'', ''a.pem''] ''example.com'')"
    by (simp add: exampleStore_def exampleListener_def)
  ultimately show ?thesis by simp
qed

text \<open>
  Claim C8, amended. \<open>Render\<close> changes the order of elements and nothing else. In the
  store it sorts the certificate slice of every listener that uses SSL; the keys of the
  maps, the names, modes and flags, the backends and the bounds of their slices stay as
  they were. In the heap it sorts the window of every backend's slice, one backend after
  the other in the order of the second pass; every backing array keeps its length and
  its members. Where the slices of any two backends are the same window or do not
  overlap, each backend ends with the servers it had, sorted by name. (Where slices
  overlap, a backend can end with servers of its neighbour: only the array as a whole
  keeps its members.)
\<close>

theorem Render_sorts_in_place:
  assumes "wf_store h" and "sortContract srt" and "Render srt hp h = Inr (out, h', hp')"
  shows "h' = sortedStore h
         \<and> hp' = foldl (sortSlice srt) hp (map (\<lambda>entry. Backends (snd entry)) (backendSeq h))
         \<and> length hp' = length hp
         \<and> (\<forall>p. mset (array hp' p) = mset (array hp p))
         \<and> (ownSlices h \<longrightarrow>
               (\<forall>b \<in> set (storedBackends h).
                  readSlice hp' (Backends b) = srt (readSlice hp (Backends b))))"
proof -
  have "h' = sortedStore h" using Render_result[OF assms(1,3)] by simp
  moreover note Render_heap[OF assms(1,3)]
  moreover note Render_arrays[OF assms]
  moreover have "\<forall>b \<in> set (storedBackends h).
      readSlice hp' (Backends b) = srt (readSlice hp (Backends b))" if "ownSlices h"
    using Render_owned(2)[OF assms(1) that assms(2,3)] .
  ultimately show ?thesis by blast
qed

text \<open>
  A store with the certificates b.pem and a.pem and a backend with the servers n2 and
  n1: the certificates are sorted in the store, the servers in the heap.
\<close>

theorem Render_sorts_in_place_witness:
  "wf_store (pairStore [''b.pem'', ''a.pem''])
   \<and> sortContract insertionSort
   \<and> ownSlices (pairStore [''b.pem'', ''a.pem''])
   \<and> Render insertionSort (pairHeap ''n2'' ''n1'') (pairStore [''b.pem'', ''a.pem''])
       = Inr (pairText, pairStore [''a.pem'', ''b.pem''], pairHeap ''n1'' ''n2'')
   \<and> pairStore [''a.pem'', ''b.pem''] = sortedStore (pairStore [''b.pem'', ''a.pem''])
   \<and> storedBackends (pairStore [''b.pem'', ''a.pem'']) = [overlapBackend ''web-be'' 0]
   \<and> readSlice (pairHeap ''n1'' ''n2'') (Backends (overlapBackend ''web-be'' 0))
       = insertionSort (readSlice (pairHeap ''n2'' ''n1'') (Backends (overlapBackend ''web-be'' 0)))"
proof -
  have 1: "wf_store (pairStore [''b.pem'', ''a.pem''])" by (simp add: eval_defs)
  have 2: "ownSlices (pairStore [''b.pem'', ''a.pem''])" by (simp add: eval_defs text_defs)
  have 3: "storedBackends (pairStore [''b.pem'', ''a.pem'']) = [overlapBackend ''web-be'' 0]"
    by (simp add: storedBackends_def pairStore_def exampleStore_def)
  have render_pair_example:
    "Render insertionSort (pairHeap ''n2'' ''n1'') (pairStore [''b.pem'', ''a.pem''])
       = Inr (pairText, pairStore [''a.pem'', ''b.pem''], pairHeap ''n1'' ''n2'')"
    by (simp add: eval_defs)
  from Render_sorts_in_place[OF 1 sortContract_insertionSort render_pair_example] 2
  have "pairStore [''a.pem'', ''b.pem''] = sortedStore (pairStore [''b.pem'', ''a.pem''])"
    and "\<forall>b \<in> set (storedBackends (pairStore [''b.pem'', ''a.pem''])).
         readSlice (pairHeap ''n1'' ''n2'') (Backends b)
           = insertionSort (readSlice (pairHeap ''n2'' ''n1'') (Backends b))"
    by blast+
  with 1 2 3 sortContract_insertionSort render_pair_example show ?thesis by simp
qed

lemma eqMap_refl: "distinct (map fst m) \<Longrightarrow> (\<And>k v. (k, v) \<in> set m \<Longrightarrow> R v v) \<Longrightarrow> eqMap R m m"
  unfolding eqMap_def
proof (intro conjI allI)
  fix k
  assume d: "distinct (map fst m)" and r: "\<And>k v. (k, v) \<in> set m \<Longrightarrow> R v v"
  show "rel_option R (map_of m k) (map_of m k)"
  proof (cases "map_of m k")
    case None
    then show ?thesis by simp
  next
    case (Some v)
    then have "(k, v) \<in> set m" by (rule map_of_SomeD)
    with r Some show ?thesis by simp
  qed
qed simp_all

lemma permListener_refl: "distinct (map fst (hostnameBackends l)) \<Longrightarrow> permListener l l"
  by (simp add: permListener_def eqMap_refl)

lemma permStore_two_ports:
  "permStore
     (portsStore [(443, exampleListener ''http'' [''b.pem'', ''a.pem''] ''example.com''),
                  (80, exampleListener ''http'' [] ''example.com'')])
     (portsStore [(80, exampleListener ''http'' [] ''example.com''),
                  (443, exampleListener ''http'' [''b.pem'', ''a.pem''] ''example.com'')])"
proof -
  have l: "permListener (exampleListener m certs hostname) (exampleListener m certs hostname)"
    for m certs hostname
    by (rule permListener_refl) (simp add: exampleListener_def)
  have "eqMap permListener
     [(443, exampleListener ''http'' [''b.pem'', ''a.pem''] ''example.com''),
      (80, exampleListener ''http'' [] ''example.com'')]
     [(80, exampleListener ''http'' [] ''example.com''),
      (443 :: 16 word, exampleListener ''http'' [''b.pem'', ''a.pem''] ''example.com'')]"
    by (simp add: eqMap_def l)
  then show ?thesis by (simp add: permStore_def portsStore_def eqMap_def)
qed

lemma ownSlices_two_ports:
  "ownSlices
     (portsStore [(443, exampleListener ''http'' [''b.pem'', ''a.pem''] ''example.com''),
                  (80, exampleListener ''http'' [] ''example.com'')])"
  by (simp add: eval_defs text_defs)

text \<open>
  Claim C2, as stated, fails on a store whose backends share servers. The two requests
  below carry slices that overlap in one array of the caller, \<open>AddListener\<close> stores
  them as they are, and \<open>Render\<close> sorts each in place: the first call prints the
  servers b, c and a, c, and leaves the array so that the second call, on the same
  store, prints a, b and b, c.
\<close>

theorem Render_overlap_counterexample:
  "AddListeners emptyStore overlapRequests = Inr overlapStore
   \<and> Render insertionSort overlapHeap overlapStore
     = Inr (overlapText1, overlapStore,
            [[server ''b'' ''10.0.0.2'', server ''a'' ''10.0.0.1'', server ''c'' ''10.0.0.3'']])
   \<and> Render insertionSort
        [[server ''b'' ''10.0.0.2'', server ''a'' ''10.0.0.1'', server ''c'' ''10.0.0.3'']]
        overlapStore
     = Inr (overlapText2, overlapStore,
            [[server ''a'' ''10.0.0.1'', server ''b'' ''10.0.0.2'', server ''c'' ''10.0.0.3'']])
   \<and> overlapText1 \<noteq> overlapText2"
proof -
  have "AddListeners emptyStore overlapRequests = Inr overlapStore"
    by (simp add: eval_defs)
  moreover have "Render insertionSort overlapHeap overlapStore
     = Inr (overlapText1, overlapStore,
            [[server ''b'' ''10.0.0.2'', server ''a'' ''10.0.0.1'', server ''c'' ''10.0.0.3'']])"
    by (simp add: eval_defs)
  moreover have "Render insertionSort
        [[server ''b'' ''10.0.0.2'', server ''a'' ''10.0.0.1'', server ''c'' ''10.0.0.3'']]
        overlapStore
     = Inr (overlapText2, overlapStore,
            [[server ''a'' ''10.0.0.1'', server ''b'' ''10.0.0.2'', server ''c'' ''10.0.0.3'']])"
    by (simp add: eval_defs)
  moreover have "overlapText1 \<noteq> overlapText2"
    by (simp add: overlapText1_def overlapText2_def NL_def)
  ultimately show ?thesis by simp
qed

text \<open>
  Claim C2, amended. For every store, the text that \<open>Render\<close> returns is built in
  sorted order and does not depend on the order in which the maps yield their entries:
  it is \<open>frontendsText\<close>, the frontend stanzas with the listen addresses in the
  lexicographic order of their bytes, under each address the ports in ascending numeric
  order, under each listener the hostnames lexicographically and the certificates of a
  listener with SSL in ascending order, each once; then follow the backend stanzas in
  the same order of addresses, ports and hostnames (\<open>backendSeq\<close>), each with its
  servers sorted by name at the moment it is printed. A store with the same maps in
  any other order of the entries renders to the same bytes. Where the server slices of
  any two backends are the same window or do not overlap, the backend stanzas are
  \<open>backendsText\<close>: every backend lists the servers it had before the call, sorted;
  and a second call of \<open>Render\<close>, on the store and the heap that the first call has
  left, returns the same bytes again and changes nothing.
\<close>

theorem Render_deterministic:
  assumes "sortContract srt" and "permStore h1 h2"
    and "Render srt hp h1 = Inr (out, h1', hp')"
  shows "(out, hp') = foldl (backendStep srt) (frontendsText h1, hp) (backendSeq h1)
         \<and> (\<exists>h2'. Render srt hp h2 = Inr (out, h2', hp'))
         \<and> (ownSlices h1 \<longrightarrow>
               out = frontendsText h1 @ backendsText srt hp h1
               \<and> Render srt hp' h1' = Inr (out, h1', hp'))"
proof -
  have wf: "wf_store h1" using assms(2) by (rule permStore_wf)
  have "\<exists>h2'. Render srt hp h2 = Inr (out, h2', hp')"
    using Render_perm[OF assms(2), of srt hp] assms(3) by (cases "Render srt hp h2") auto
  moreover have "(out, hp') = foldl (backendStep srt) (frontendsText h1, hp) (backendSeq h1)"
    using Render_result[OF wf assms(3)] by simp
  moreover have "out = frontendsText h1 @ backendsText srt hp h1
      \<and> Render srt hp' h1' = Inr (out, h1', hp')" if "ownSlices h1"
    using Render_owned(1)[OF wf that assms(1,3)] Render_again[OF wf that assms(1,3)] by simp
  ultimately show ?thesis by blast
qed

text \<open>
  Two listeners on the ports 443 and 80 with the same backend, stored in either order:
  the same text, with the port 80 first, and the same text again from what \<open>Render\<close>
  has left.
\<close>

theorem Render_deterministic_witness:
  "sortContract insertionSort
   \<and> ownSlices
       (portsStore [(443, exampleListener ''http'' [''b.pem'', ''a.pem''] ''example.com''),
                    (80, exampleListener ''http'' [] ''example.com'')])
   \<and> permStore
       (portsStore [(443, exampleListener ''http'' [''b.pem'', ''a.pem''] ''example.com''),
                    (80, exampleListener ''http'' [] ''example.com'')])
       (portsStore [(80, exampleListener ''http'' [] ''example.com''),
                    (443, exampleListener ''http'' [''b.pem'', ''a.pem''] ''example.com'')])
   \<and> Render insertionSort exampleHeap
        (portsStore [(443, exampleListener ''http'' [''b.pem'', ''a.pem''] ''example.com''),
                     (80, exampleListener ''http'' [] ''example.com'')])
     = Inr (twoPortText,
            portsStore [(443, exampleListener ''http'' [''a.pem'', ''b.pem''] ''example.com''),
                        (80, exampleListener ''http'' [] ''example.com'')],
            exampleHeap)
   \<and> (\<exists>h2'. Render insertionSort exampleHeap
                (portsStore [(80, exampleListener ''http'' [] ''example.com''),
                             (443, exampleListener ''http'' [''b.pem'', ''a.pem''] ''example.com'')])
          = Inr (twoPortText, h2', exampleHeap))
   \<and> twoPortText
     = frontendsText
         (portsStore [(443, exampleListener ''http'' [''b.pem'', ''a.pem''] ''example.com''),
                      (80, exampleListener ''http'' [] ''example.com'')])
       @ backendsText insertionSort exampleHeap
         (portsStore [(443, exampleListener ''http'' [''b.pem'', ''a.pem''] ''example.com''),
                      (80, exampleListener ''http'' [] ''example.com'')])
   \<and> Render insertionSort exampleHeap
        (portsStore [(443, exampleListener ''http'' [''a.pem'', ''b.pem''] ''example.com''),
                     (80, exampleListener ''http'' [] ''example.com'')])
     = Inr (twoPortText,
            portsStore [(443, exampleListener ''http'' [''a.pem'', ''b.pem''] ''example.com''),
                        (80, exampleListener ''http'' [] ''example.com'')],
            exampleHeap)"
proof -
  have render_two_ports:
    "Render insertionSort exampleHeap
        (portsStore [(443, exampleListener ''http'' [''b.pem'', ''a.pem''] ''example.com''),
                     (80, exampleListener ''http'' [] ''example.com'')])
       = Inr (twoPortText,
              portsStore [(443, exampleListener ''http'' [''a.pem'', ''b.pem''] ''example.com''),
                          (80, exampleListener ''http'' [] ''example.com'')],
              exampleHeap)"
    by (simp add: eval_defs)
  from Render_deterministic[OF sortContract_insertionSort permStore_two_ports render_two_ports]
    sortContract_insertionSort ownSlices_two_ports permStore_two_ports render_two_ports
  show ?thesis by simp
qed

section \<open>The claims about certificates and repeated requests\<close>



text \<open>
  Claim C9, as stated, fails: the listener keeps its certificates in a slice, and
  \<open>AddListener\<close> appends to it without looking for the name. The same request with a
  certificate, accepted twice, leaves the name twice in the stored slice.
\<close>

theorem stored_certificates_counterexample:
  "AddListeners emptyStore
       [exampleRequest\<lparr>SslCertificate := ''cert.pem''\<rparr>,
        exampleRequest\<lparr>SslCertificate := ''cert.pem''\<rparr>]
     = Inr (exampleStore (exampleListener ''http'' [''cert.pem'', ''cert.pem''] ''example.com''))
   \<and> sslCertificates (exampleListener ''http'' [''cert.pem'', ''cert.pem''] ''example.com'')
     = [''cert.pem'', ''cert.pem'']
   \<and> \<not> distinct (sslCertificates (exampleListener ''http'' [''cert.pem'', ''cert.pem''] ''example.com''))"
  by (simp add: eval_defs)

text \<open>
  Claim C9, amended. An accepted request with a certificate appends the name to the
  slice stored for its address and port, whether or not the name is there already, so
  the stored slice has the semantics of a list; \<open>Render\<close> sorts it and takes nothing
  out of it. The duplicates collapse in the text only: the \<open>bind\<close> line that \<open>Render\<close>
  prints for the listener carries one \<open>crt\<close> directive for every stored name other
  than the empty one, each name once, in ascending order. (The store before the request
  is one that \<open>AddListener\<close> can have built: every key once, and a backend under
  \<open>_\<close> for every listener in mode \<open>tcp\<close>.)
\<close>

theorem certificates_appended_then_collapsed:
  assumes "wf_store h" and "tcpListenersHaveBackend h"
    and "AddListener h hlc = Returned [] h'" and "SslCertificate hlc \<noteq> ''''"
  shows "\<exists>l' out h'' hp' pre post.
           lookupListener h' (ListenIP hlc) (ListenPort hlc) = Some l'
           \<and> sslCertificates l' =
               (case lookupListener h (ListenIP hlc) (ListenPort hlc) of
                  None \<Rightarrow> [] | Some l \<Rightarrow> sslCertificates l) @ [SslCertificate hlc]
           \<and> Render srt hp h' = Inr (out, h'', hp')
           \<and> out = pre @ ''    bind '' @ ListenIP hlc @ '':'' @ Itoa (uint (ListenPort hlc))
                   @ '' ssl''
                   @ concat (map crtDirective
                       (sort (remdups (filter (\<lambda>c. c \<noteq> '''') (sslCertificates l')))))
                   @ NL @ post
           \<and> lookupListener h'' (ListenIP hlc) (ListenPort hlc)
               = Some (l'\<lparr>sslCertificates := sort (sslCertificates l')\<rparr>)"
proof -
  have "tcpListenersHaveBackend h'"
    using AddListener_tcpListenersHaveBackend[OF assms(2,3)] .
  from Render_total[OF this, of srt hp] obtain out h'' hp' where
    render: "Render srt hp h' = Inr (out, h'', hp')" by blast
  note assms = assms(1,3,4) render
  from AddListener_accepted_listener[OF assms(2)] obtain l0 where
    look: "lookupListener h' (ListenIP hlc) (ListenPort hlc) = Some (mergeRequest hlc l0)"
    and ssl0: "useSSL l0 = (SslCertificate hlc \<noteq> '''')"
    and certs0: "sslCertificates l0 =
       (case lookupListener h (ListenIP hlc) (ListenPort hlc) of
          None \<Rightarrow> [] | Some l \<Rightarrow> sslCertificates l)"
    by blast
  let ?l = "mergeRequest hlc l0"
  from ssl0 assms(3) have ssl: "useSSL ?l" by simp
  have certs: "sslCertificates ?l =
      (case lookupListener h (ListenIP hlc) (ListenPort hlc) of
         None \<Rightarrow> [] | Some l \<Rightarrow> sslCertificates l) @ [SslCertificate hlc]"
    using assms(3) certs0 by simp
  have wf': "wf_store h'" using AddListener_wf[OF assms(1,2)] .
  from Render_bind_line[OF wf' assms(4) look ssl] obtain pre post where
    "out = (pre @ ''frontend '' @ name ?l @ NL @ ''    mode '' @ mode ?l @ NL)
             @ ''    bind '' @ ListenIP hlc @ '':'' @ Itoa (uint (ListenPort hlc)) @ '' ssl''
             @ concat (map crtDirective
                 (sort (remdups (filter (\<lambda>c. c \<noteq> '''') (sslCertificates ?l)))))
             @ NL @ post"
    by auto
  moreover have "h'' = sortedStore h'" using Render_result[OF wf' assms(4)] by simp
  then have "lookupListener h'' (ListenIP hlc) (ListenPort hlc)
               = Some (?l\<lparr>sslCertificates := sort (sslCertificates ?l)\<rparr>)"
    using look ssl by (simp add: sortedStore_lookup sortCertificates_def)
  ultimately show ?thesis using look certs render by blast
qed

text \<open>
  The second of two requests with cert.pem: the slice grows to two equal names, and
  stays so after \<open>Render\<close>; the text has the one directive.
\<close>

theorem certificates_appended_then_collapsed_witness:
  "wf_store (exampleStore (exampleListener ''http'' [''cert.pem''] ''example.com''))
   \<and> tcpListenersHaveBackend (exampleStore (exampleListener ''http'' [''cert.pem''] ''example.com''))
   \<and> AddListener (exampleStore (exampleListener ''http'' [''cert.pem''] ''example.com''))
        (exampleRequest\<lparr>SslCertificate := ''cert.pem''\<rparr>)
     = Returned [] (exampleStore (exampleListener ''http'' [''cert.pem'', ''cert.pem''] ''example.com''))
   \<and> SslCertificate (exampleRequest\<lparr>SslCertificate := ''cert.pem''\<rparr>) \<noteq> ''''
   \<and> Render insertionSort exampleHeap
        (exampleStore (exampleListener ''http'' [''cert.pem'', ''cert.pem''] ''example.com''))
     = Inr (certExampleText,
            exampleStore (exampleListener ''http'' [''cert.pem'', ''cert.pem''] ''example.com''),
            exampleHeap)
   \<and> sslCertificates (exampleListener ''http'' [''cert.pem'', ''cert.pem''] ''example.com'')
     = [''cert.pem''] @ [''cert.pem'']
   \<and> (\<exists>pre post. certExampleText =
          pre @ ''    bind 0.0.0.0:80 ssl'' @ '' crt cert.pem'' @ NL @ post)"
proof -
  let ?r = "exampleRequest\<lparr>SslCertificate := ''cert.pem''\<rparr>"
  let ?h1 = "exampleStore (exampleListener ''http'' [''cert.pem''] ''example.com'')"
  let ?l2 = "exampleListener ''http'' [''cert.pem'', ''cert.pem''] ''example.com''"
  have 0: "wf_store ?h1" "tcpListenersHaveBackend ?h1" by (simp_all add: eval_defs)
  have 1: "AddListener ?h1 ?r = Returned [] (exampleStore ?l2)" by (simp add: eval_defs)
  have 2: "SslCertificate ?r \<noteq> ''''" by simp
  have 3: "lookupListener (exampleStore ?l2) (ListenIP ?r) (ListenPort ?r) = Some ?l2"
    by (simp add: eval_defs)
  have render_cert_example:
    "Render insertionSort exampleHeap (exampleStore ?l2)
       = Inr (certExampleText, exampleStore ?l2, exampleHeap)"
    by (simp add: eval_defs)
  have 5: "ListenIP ?r = ''0.0.0.0''" "Itoa (uint (ListenPort ?r)) = ''80''"
    "sort (remdups (filter (\<lambda>x. x \<noteq> '''') (sslCertificates ?l2))) = [''cert.pem'']"
    by (simp_all add: eval_defs)
  have 6: "sslCertificates ?l2 = [''cert.pem''] @ [''cert.pem'']"
    by (simp add: exampleListener_def)
  from certificates_appended_then_collapsed[OF 0 1 2, of insertionSort exampleHeap]
  obtain l' out h'' hp' pre post where
    "lookupListener (exampleStore ?l2) (ListenIP ?r) (ListenPort ?r) = Some l'"
    "Render insertionSort exampleHeap (exampleStore ?l2) = Inr (out, h'', hp')"
    "out = pre @ ''    bind '' @ ListenIP ?r @ '':'' @ Itoa (uint (ListenPort ?r))
        @ '' ssl''
        @ concat (map crtDirective
            (sort (remdups (filter (\<lambda>c. c \<noteq> '''') (sslCertificates l')))))
        @ NL @ post"
    by auto
  with 3 render_cert_example have "certExampleText = pre @ ''    bind '' @ ListenIP ?r @ '':''
        @ Itoa (uint (ListenPort ?r)) @ '' ssl''
        @ concat (map crtDirective
            (sort (remdups (filter (\<lambda>c. c \<noteq> '''') (sslCertificates ?l2)))))
        @ NL @ post"
    by simp
  then have "certExampleText =
          pre @ ''    bind 0.0.0.0:80 ssl'' @ '' crt cert.pem'' @ NL @ post"
    unfolding 5 by (simp add: crtDirective_def)
  with 0 1 2 6 render_cert_example show ?thesis by blast
qed

section \<open>Adding a request twice\<close>

lemma sameListener_merge_again:
  "sameListener (mergeRequest hlc l) (mergeRequest hlc (mergeRequest hlc l))"
  by (auto simp: sameListener_def update_conv' intro!: update_triv[symmetric])

lemma list_all2_sameListener_refl: "list_all2 (rel_prod (=) sameListener) inner inner"
  by (simp add: list_all2_same rel_prod_sel)

lemma sameStore_storeListener:
  assumes "lookupListener h ip port = Some l" and "sameListener l l'"
  shows "sameStore h (storeListener h ip port l')"
proof -
  from assms(1) obtain inner where
    i: "map_of (listenIPs (desiredConfig h)) ip = Some inner" and p: "map_of inner port = Some l"
    unfolding lookupListener_Some by blast
  have "list_all2 (rel_prod (=) sameListener) inner (AList.update port l' inner)"
    by (rule rel_update_same[where R = sameListener, OF p assms(2)]) simp
  then have "list_all2 (rel_prod (=) (list_all2 (rel_prod (=) sameListener)))
          (listenIPs (desiredConfig h))
          (AList.update ip (AList.update port l' inner) (listenIPs (desiredConfig h)))"
    by (rule rel_update_same[where R = "list_all2 (rel_prod (=) sameListener)", OF i])
       (rule list_all2_sameListener_refl)
  with i show ?thesis by (simp add: sameStore_def storeListener_def Let_def)
qed

text \<open>
  Claim C4, as stated, fails for a request in mode \<open>tcp\<close>: the empty store accepts
  it, and the same request again finds its own listener and panics, so that no store is
  left to render.
\<close>

theorem add_twice_tcp_counterexample:
  "AddListeners emptyStore [exampleRequest\<lparr>Mode := ''tcp''\<rparr>]
     = Inr (exampleStore (exampleListener ''tcp'' [] ''_''))
   \<and> RenderText insertionSort exampleHeap (exampleStore (exampleListener ''tcp'' [] ''_''))
     = Inr tcpExampleText
   \<and> AddListeners emptyStore [exampleRequest\<lparr>Mode := ''tcp''\<rparr>, exampleRequest\<lparr>Mode := ''tcp''\<rparr>]
     = Inl (Panic ''This could cause unpredictability in the service router'')"
proof -
  have "AddListener emptyStore (exampleRequest\<lparr>Mode := ''tcp''\<rparr>)
          = Returned [] (exampleStore (exampleListener ''tcp'' [] ''_''))"
    by (simp add: eval_defs)
  moreover have "AddListener (exampleStore (exampleListener ''tcp'' [] ''_''))
          (exampleRequest\<lparr>Mode := ''tcp''\<rparr>)
          = Panicked [''A listener for another TCP service is already configured on the port (80)'']
              (Panic ''This could cause unpredictability in the service router'')"
    by (simp add: eval_defs)
  moreover have "RenderText insertionSort exampleHeap (exampleStore (exampleListener ''tcp'' [] ''_''))
      = Inr tcpExampleText"
    using render_tcp_example by (simp add: RenderText_def)
  ultimately show ?thesis by simp
qed

text \<open>
  Claim C4, amended. For every request other than a valid request in mode \<open>tcp\<close>
  (one that is in mode http, or that validation rejects), adding the request a second
  time right after the first neither panics nor changes what \<open>Render\<close> returns: on
  every heap the text, or the failure, is that of the store with the request added once.
\<close>

theorem add_twice_renders_as_once:
  assumes "\<not> (Mode hlc = ''tcp'' \<and> fst (validate hlc h))"
  shows "\<exists>h1 h2. AddListeners h [hlc] = Inr h1 \<and> AddListeners h [hlc, hlc] = Inr h2
           \<and> RenderText srt hp h2 = RenderText srt hp h1"
proof (cases "fst (validate hlc h)")
  case False
  then show ?thesis by (simp add: AddListener_rejected)
next
  case True
  with assms have tcp: "Mode hlc \<noteq> ''tcp''" by simp
  let ?ip = "ListenIP hlc" and ?port = "ListenPort hlc"
  obtain l0 where l0: "mode l0 = Mode hlc" "useSSL l0 = (SslCertificate hlc \<noteq> '''')"
    and 1: "AddListener h hlc = Returned [] (storeListener h ?ip ?port (mergeRequest hlc l0))"
  proof (cases "lookupListener h ?ip ?port")
    case None
    with True that[of "newListener hlc"] show ?thesis by (simp add: AddListener_accepted)
  next
    case (Some l)
    with True tcp that[of l] show ?thesis by (simp add: AddListener_accepted validate_verdict)
  qed
  let ?l1 = "mergeRequest hlc l0"
  let ?h1 = "storeListener h ?ip ?port ?l1"
  have look: "lookupListener ?h1 ?ip ?port = Some ?l1" by simp
  from True have "Mode hlc = ''http'' \<or> Mode hlc = ''tcp''" by (simp add: validate_verdict)
  with l0 look have v: "fst (validate hlc ?h1)" by (simp add: validate_verdict)
  let ?h2 = "storeListener ?h1 ?ip ?port (mergeRequest hlc ?l1)"
  from v look tcp have 2: "AddListener ?h1 hlc = Returned [] ?h2"
    by (simp add: AddListener_accepted del: lookupListener_storeListener mergeRequest_simps)
  have "sameStore ?h1 ?h2"
    by (rule sameStore_storeListener[OF look sameListener_merge_again])
  then have "RenderText srt hp ?h2 = RenderText srt hp ?h1" by (simp add: sameStore_RenderText)
  with 1 2 show ?thesis by simp
qed

text \<open>The http request of the example with a certificate, added once and twice.\<close>

theorem add_twice_renders_as_once_witness:
  "\<not> (Mode (exampleRequest\<lparr>SslCertificate := ''cert.pem''\<rparr>) = ''tcp''
        \<and> fst (validate (exampleRequest\<lparr>SslCertificate := ''cert.pem''\<rparr>) emptyStore))
   \<and> AddListeners emptyStore [exampleRequest\<lparr>SslCertificate := ''cert.pem''\<rparr>]
     = Inr (exampleStore (exampleListener ''http'' [''cert.pem''] ''example.com''))
   \<and> AddListeners emptyStore
       [exampleRequest\<lparr>SslCertificate := ''cert.pem''\<rparr>, exampleRequest\<lparr>SslCertificate := ''cert.pem''\<rparr>]
     = Inr (exampleStore (exampleListener ''http'' [''cert.pem'', ''cert.pem''] ''example.com''))
   \<and> RenderText insertionSort exampleHeap
        (exampleStore (exampleListener ''http'' [''cert.pem'', ''cert.pem''] ''example.com''))
     = RenderText insertionSort exampleHeap
        (exampleStore (exampleListener ''http'' [''cert.pem''] ''example.com''))"
proof -
  let ?r = "exampleRequest\<lparr>SslCertificate := ''cert.pem''\<rparr>"
  have 0: "\<not> (Mode ?r = ''tcp'' \<and> fst (validate ?r emptyStore))"
    by (simp add: exampleRequest_def)
  have 1: "AddListeners emptyStore [?r]
     = Inr (exampleStore (exampleListener ''http'' [''cert.pem''] ''example.com''))"
    by (simp add: eval_defs)
  have 2: "AddListeners emptyStore [?r, ?r]
     = Inr (exampleStore (exampleListener ''http'' [''cert.pem'', ''cert.pem''] ''example.com''))"
    by (simp add: eval_defs)
  from add_twice_renders_as_once[OF 0, of insertionSort exampleHeap] 0 1 2 show ?thesis by simp
qed

end
